theory Spec2Isabelle
  imports Main "HOL-Library.Word"
begin

section \<open>Basic types\<close>

text \<open>
  The identifiers of the engine (\<open>block_id\<close>, \<open>schain_index\<close>, \<open>node_id\<close>,
  \<open>bin_consensus_round\<close>) are strong typedefs over \<open>uint64_t\<close>; they are modelled as
  64-bit words, so \<open>+\<close> wraps around as it does in the C++ code.
\<close>

type_synonym u8 = "8 word"
type_synonym u32 = "32 word"
type_synonym u64 = "64 word"

text \<open>
  Exceptions are values. \<open>FatalError\<close> is what a failed \<open>ASSERT\<close> raises;
  \<open>InvalidStateException\<close> is what \<open>CHECK_STATE\<close> and \<open>throw_with_nested\<close> raise,
  \<open>InvalidArgumentException\<close> what \<open>CHECK_ARGUMENT\<close> raises. \<open>Segfault\<close> is not an
  exception: it stands for the process ending on the dereference of a null pointer. It
  ends every call that is running, and no \<open>catch\<close> sees it.
\<close>

datatype exn =
    ExitRequestedException
  | InvalidStateException
  | InvalidArgumentException
  | ParsingException
  | FatalError
  | Segfault

section \<open>Blocks and proposals\<close>

text \<open>
  A transaction is an opaque byte string. A block proposal carries the fields that
  \<open>CommittedBlock::parseBlockHeader\<close> reads from the header; \<open>timeStampMs\<close> is a
  \<open>uint32_t\<close> (it is read with \<open>Header::getUint32\<close>). The signature is a pointer in the
  source and may be null. A committed block is a proposal whose signature is the
  threshold signature of the decision.
\<close>

type_synonym Transaction = "char list"

record BlockProposal =
  blockID :: u64
  proposerIndex :: u64
  proposerNodeID :: u64
  schainID :: u64
  timeStamp :: u64
  timeStampMs :: u32
  transactionList :: "Transaction list"
  hash :: string
  signature :: "string option"
  stateRoot :: nat

type_synonym CommittedBlock = BlockProposal

record DAProof =
  daBlockId :: u64
  daProposerIndex :: u64
  daThresholdSig :: string

record NetworkMessage =
  msgBlockID :: u64
  msgBlockProposerIndex :: u64
  msgRound :: u64
  msgBit :: u8
  msgSrcNodeID :: u64
  msgDstNodeID :: u64
  msgIp :: u32

record NodeInfo =
  nodeID :: u64
  nodeSchainIndex :: u64

datatype Message =
    ConsensusProposalMessage u64 "bool list"
  | NetworkMsg NetworkMessage

datatype MessageEnvelope =
    InternalMessageEnvelope Message
  | NetworkMessageEnvelope NetworkMessage NodeInfo

fun envelopeBlockId :: "MessageEnvelope \<Rightarrow> u64" where
  "envelopeBlockId (InternalMessageEnvelope (ConsensusProposalMessage b v)) = b"
| "envelopeBlockId (InternalMessageEnvelope (NetworkMsg m)) = msgBlockID m"
| "envelopeBlockId (NetworkMessageEnvelope m n) = msgBlockID m"

section \<open>The per-chain driver (Schain.cpp)\<close>

text \<open>
  What the block DB holds under a block id: a block, or bytes that cannot be read back
  (\<open>getBlock\<close> throws on them; bootstrap has a handler for that).
\<close>

datatype stored = Corrupt | Stored CommittedBlock

datatype pushItem = PushProposal BlockProposal | PushDAProof DAProof

text \<open>One call of the host's \<open>createBlock\<close> callback, with its six arguments.\<close>

record createBlockCall =
  cbTransactions :: "Transaction list"
  cbTimeStamp :: u64
  cbTimeStampMs :: u32
  cbBlockID :: u64
  cbPrice :: nat
  cbStateRoot :: nat

text \<open>
  The driver's own fields, followed by the state of the collaborators it owns or calls:
  the node's exit flag, the wall clock, the host interface (\<open>extFace\<close> may be null) with
  the calls made to it, the databases as maps, the driver's message queue, the gossip
  queue of the proposal client, the proposals announced (the "PROPOSING BLOCK NUMBER"
  log line), what bootstrap re-broadcast, and the round and decision of each binary
  consensus instance as \<open>getBlockConsensusInstance()\<close> reports them.
\<close>

record Schain =
  lastCommittedBlockID :: u64
  lastCommittedBlockTimeStamp :: u64
  lastCommittedBlockTimeStampMs :: u64
  lastCommitTime :: u64
  totalTransactions :: u64
  bootStrapped :: bool
  bootstrapBlockID :: u64
  schainIndex :: u64
  exitRequested :: bool
  clock :: u64
  extFace :: bool
  createdBlocks :: "createBlockCall list"
  blockDB :: "u64 \<Rightarrow> stored option"
  blockDBLastCommitted :: u64
  blockProposalDB :: "u64 \<times> u64 \<Rightarrow> BlockProposal option"
  proposalHashDB :: "u64 \<times> u64 \<Rightarrow> string option"
  daProofDB :: "(u64 \<times> u64) list"
  requiredSigners :: nat
  nodeCount :: nat
  proposalVectorDB :: "u64 \<Rightarrow> bool list option"
  outgoingMsgDB :: "u64 \<Rightarrow> NetworkMessage list"
  messageQueue :: "MessageEnvelope list"
  proposalQueue :: "pushItem list"
  proposingLog :: "u64 list"
  rebroadcast :: "NetworkMessage list"
  binRound :: "u64 \<times> u64 \<Rightarrow> u64"
  binDecided :: "u64 \<times> u64 \<Rightarrow> bool"

subsection \<open>Procedures: state passing with exceptions\<close>

text \<open>
  A member function is a function from the driver state to a result and the state it
  leaves: \<open>Inr x\<close> when it returns \<open>x\<close>, \<open>Inl e\<close> when it throws \<open>e\<close>. What was
  written before a throw stays written, as in the C++ code.
\<close>

type_synonym 'a proc = "Schain \<Rightarrow> (exn + 'a) \<times> Schain"

definition ret :: "'a \<Rightarrow> 'a proc" where
  "ret x s = (Inr x, s)"

definition throw :: "exn \<Rightarrow> 'a proc" where
  "throw e s = (Inl e, s)"

definition bind :: "'a proc \<Rightarrow> ('a \<Rightarrow> 'b proc) \<Rightarrow> 'b proc" where
  "bind m f s = (case m s of (Inl e, s') \<Rightarrow> (Inl e, s') | (Inr x, s') \<Rightarrow> f x s')"

definition andThen :: "unit proc \<Rightarrow> 'a proc \<Rightarrow> 'a proc" where
  "andThen m n = bind m (\<lambda>u. n)"

fun steps :: "unit proc list \<Rightarrow> unit proc" where
  "steps [] = ret ()"
| "steps (a # as) = andThen a (steps as)"

definition getState :: "Schain proc" where
  "getState s = (Inr s, s)"

definition withState :: "(Schain \<Rightarrow> 'a proc) \<Rightarrow> 'a proc" where
  "withState f = bind getState f"

definition modify :: "(Schain \<Rightarrow> Schain) \<Rightarrow> unit proc" where
  "modify f s = (Inr (), f s)"

definition lift :: "exn + 'a \<Rightarrow> 'a proc" where
  "lift r = (case r of Inl e \<Rightarrow> throw e | Inr x \<Rightarrow> ret x)"

definition raiseIf :: "exn option \<Rightarrow> unit proc" where
  "raiseIf r = (case r of Some e \<Rightarrow> throw e | None \<Rightarrow> ret ())"

text \<open>
  Modelled from the spec: the macros \<open>ASSERT\<close>, \<open>CHECK_STATE\<close> and \<open>CHECK_ARGUMENT\<close> are
  declared in SkaleCommon.h, which is not among the sources. The spec calls a failed
  assertion fatal and names InvalidState for a violated internal invariant; each macro
  raises when its condition is false and does nothing otherwise.
\<close>

definition ASSERT :: "bool \<Rightarrow> unit proc" where
  "ASSERT c = (if c then ret () else throw FatalError)"

definition CHECK_STATE :: "bool \<Rightarrow> unit proc" where
  "CHECK_STATE c = (if c then ret () else throw InvalidStateException)"

definition CHECK_ARGUMENT :: "bool \<Rightarrow> unit proc" where
  "CHECK_ARGUMENT c = (if c then ret () else throw InvalidArgumentException)"

text \<open>
  \<open>try { body } catch (ExitRequestedException&) { throw; }
   catch (...) { throw_with_nested(InvalidStateException(...)); }\<close>
\<close>

definition nested :: "exn \<Rightarrow> 'a proc \<Rightarrow> 'a proc" where
  "nested w body s =
     (case body s of
        (Inl e, s') \<Rightarrow>
          (Inl (if e = ExitRequestedException \<or> e = Segfault then e else w), s')
      | (Inr x, s') \<Rightarrow> (Inr x, s'))"

text \<open>\<open>try { body } catch (...) { handler }\<close>\<close>

definition catchAll :: "'a proc \<Rightarrow> 'a proc \<Rightarrow> 'a proc" where
  "catchAll body handler s =
     (case body s of
        (Inl e, s') \<Rightarrow> if e = Segfault then (Inl e, s') else handler s'
      | (Inr x, s') \<Rightarrow> (Inr x, s'))"

definition returned :: "(exn + 'a) \<times> Schain \<Rightarrow> bool" where
  "returned r = (case fst r of Inl e \<Rightarrow> False | Inr x \<Rightarrow> True)"

subsection \<open>Collaborators outside the sources\<close>

text \<open>
  The constant \<open>MODERN_TIME\<close> and the agents whose code is not among the sources are
  parameters: the pending-transactions agent building a proposal, the crypto manager
  signing a DA share, the DA signature-share database merging a share (it returns a
  proof, or null), the pricing agent, and whether the host asks the node to exit while
  its \<open>createBlock\<close> callback runs. Every theorem below holds for all of them.
\<close>

record env =
  MODERN_TIME :: u64
  buildBlockProposal :: "Schain \<Rightarrow> u64 \<Rightarrow> u64 \<Rightarrow> u32 \<Rightarrow> exn + BlockProposal"
  signDAProofSigShare :: "BlockProposal \<Rightarrow> string option"
  addAndMergeSigShareAndVerifySig :: "Schain \<Rightarrow> string \<Rightarrow> BlockProposal \<Rightarrow> exn + DAProof option"
  calculatePrice :: "Schain \<Rightarrow> Transaction list \<Rightarrow> u64 \<Rightarrow> u32 \<Rightarrow> u64 \<Rightarrow> exn option"
  readPrice :: "Schain \<Rightarrow> u64 \<Rightarrow> exn + nat"
  exitDuringCreateBlock :: "Schain \<Rightarrow> createBlockCall \<Rightarrow> bool"

text \<open>
  Modelled from the spec: the databases are typed key-value stores with get and put by
  compound key. \<open>addBlockProposal\<close> stores a proposal under (block id, proposer index);
  \<open>saveBlock\<close> stores a block under its id and makes it the last committed block of the
  DB; \<open>checkAndSaveHash\<close> is a conditional insert; \<open>saveVector\<close> stores a proposal
  vector under its block id.
\<close>

definition addBlockProposal :: "BlockProposal \<Rightarrow> Schain \<Rightarrow> Schain" where
  "addBlockProposal p s =
     s\<lparr> blockProposalDB := (blockProposalDB s)((blockID p, proposerIndex p) \<mapsto> p) \<rparr>"

definition BlockDB_saveBlock :: "CommittedBlock \<Rightarrow> Schain \<Rightarrow> Schain" where
  "BlockDB_saveBlock b s =
     s\<lparr> blockDB := (blockDB s)(blockID b \<mapsto> Stored b), blockDBLastCommitted := blockID b \<rparr>"

definition haveProposal :: "Schain \<Rightarrow> u64 \<Rightarrow> u64 \<Rightarrow> bool" where
  "haveProposal s b i = (proposalHashDB s (b, i) \<noteq> None)"

definition checkAndSaveHash :: "u64 \<Rightarrow> u64 \<Rightarrow> string \<Rightarrow> Schain \<Rightarrow> Schain" where
  "checkAndSaveHash b i h s =
     (if proposalHashDB s (b, i) = None
      then s\<lparr> proposalHashDB := (proposalHashDB s)((b, i) \<mapsto> h) \<rparr> else s)"

definition saveVector :: "u64 \<Rightarrow> bool list \<Rightarrow> Schain \<Rightarrow> Schain" where
  "saveVector b v s = s\<lparr> proposalVectorDB := (proposalVectorDB s)(b \<mapsto> v) \<rparr>"

definition enqueueItem :: "pushItem \<Rightarrow> Schain \<Rightarrow> Schain" where
  "enqueueItem x s = s\<lparr> proposalQueue := proposalQueue s @ [x] \<rparr>"

text \<open>
  Modelled from the spec: the DA proof database. Bit i of the proposal vector of block B
  is 1 iff a DA proof for proposer i at block B has been observed; \<open>addDAProof\<close> records
  the proof and returns the vector when the proofs of the block reach the required
  number of signers (2f+1), and null otherwise.
\<close>

definition proofsOf :: "(u64 \<times> u64) list \<Rightarrow> u64 \<Rightarrow> nat" where
  "proofsOf db b = length (filter (\<lambda>k. fst k = b) db)"

definition proposalVector :: "nat \<Rightarrow> (u64 \<times> u64) list \<Rightarrow> u64 \<Rightarrow> bool list" where
  "proposalVector n db b = map (\<lambda>i. (b, of_nat i) \<in> set db) [1 ..< Suc n]"

definition addDAProof :: "DAProof \<Rightarrow> bool list option proc" where
  "addDAProof d s =
     (let k = (daBlockId d, daProposerIndex d) in
      if k \<in> set (daProofDB s) then (Inr None, s)
      else
        let db = daProofDB s @ [k] in
        (Inr (if proofsOf db (daBlockId d) = requiredSigners s
              then Some (proposalVector (nodeCount s) db (daBlockId d)) else None),
         s\<lparr> daProofDB := db \<rparr>))"

definition isEnoughProofs :: "Schain \<Rightarrow> u64 \<Rightarrow> bool" where
  "isEnoughProofs s b = (requiredSigners s \<le> proofsOf (daProofDB s) b)"

subsection \<open>Member functions of Schain\<close>

definition checkForExit :: "unit proc" where
  "checkForExit =
     withState (\<lambda>s. if exitRequested s then throw ExitRequestedException else ret ())"

definition postMessage :: "MessageEnvelope \<Rightarrow> unit proc" where
  "postMessage m =
     steps [
       checkForExit,
       ASSERT (envelopeBlockId m \<noteq> 0),
       modify (\<lambda>s. s\<lparr> messageQueue := messageQueue s @ [m] \<rparr>)]"

definition startConsensus :: "u64 \<Rightarrow> bool list \<Rightarrow> unit proc" where
  "startConsensus b v =
     steps [
       checkForExit,
       withState (\<lambda>s. ASSERT (isEnoughProofs s b)),
       withState (\<lambda>s.
         if b \<le> lastCommittedBlockID s then ret ()
         else if b > lastCommittedBlockID s + 1 then ret ()
         else postMessage (InternalMessageEnvelope (ConsensusProposalMessage b v)))]"

definition daProofArrived :: "DAProof \<Rightarrow> unit proc" where
  "daProofArrived d =
     nested InvalidStateException
       (withState (\<lambda>s.
          if daBlockId d \<le> lastCommittedBlockID s then ret ()
          else
            bind (addDAProof d)
              (\<lambda>pv. case pv of
                      None \<Rightarrow> ret ()
                    | Some v \<Rightarrow>
                        steps [
                          modify (saveVector (daBlockId d) v),
                          startConsensus (daBlockId d) v])))"

definition proposedBlockArrived :: "BlockProposal \<Rightarrow> unit proc" where
  "proposedBlockArrived p =
     withState (\<lambda>s.
       if blockID p \<le> lastCommittedBlockID s then ret ()
       else
         steps [
           CHECK_STATE (signature p \<noteq> None),
           modify (addBlockProposal p)])"

definition daProofSigShareArrived :: "env \<Rightarrow> string option \<Rightarrow> BlockProposal \<Rightarrow> unit proc" where
  "daProofSigShareArrived E sigShare p =
     steps [
       checkForExit,
       CHECK_ARGUMENT (sigShare \<noteq> None),
       nested InvalidStateException
         (bind (withState (\<lambda>s. lift (addAndMergeSigShareAndVerifySig E s (the sigShare) p)))
            (\<lambda>proof.
               case proof of
                 None \<Rightarrow> ret ()
               | Some d \<Rightarrow> steps [daProofArrived d, modify (enqueueItem (PushDAProof d))]))]"

text \<open>
  \<open>Schain::proposeNextBlock\<close>. When the hash DB has a proposal recorded and the proposal
  DB returns null for it, \<open>myProposal->getProposerIndex()\<close> dereferences the null
  pointer: the process ends there.
\<close>

definition proposeNextBlock :: "env \<Rightarrow> u64 \<Rightarrow> u32 \<Rightarrow> unit proc" where
  "proposeNextBlock E previousBlockTimeStamp previousBlockTimeStampMs =
     andThen checkForExit
       (nested InvalidStateException
          (withState (\<lambda>s.
             let proposedBlockID = lastCommittedBlockID s + 1 in
             bind
               (if haveProposal s proposedBlockID (schainIndex s)
                then (case blockProposalDB s (proposedBlockID, schainIndex s) of
                        None \<Rightarrow> throw Segfault
                      | Some p \<Rightarrow> ret p)
                else lift (buildBlockProposal E s proposedBlockID
                             previousBlockTimeStamp previousBlockTimeStampMs))
               (\<lambda>myProposal.
                  steps [
                    CHECK_STATE (proposerIndex myProposal = schainIndex s),
                    CHECK_STATE (signature myProposal \<noteq> None),
                    proposedBlockArrived myProposal,
                    modify (\<lambda>t. t\<lparr> proposingLog := proposingLog t @ [proposedBlockID] \<rparr>),
                    modify (checkAndSaveHash proposedBlockID (schainIndex s) (hash myProposal)),
                    modify (enqueueItem (PushProposal myProposal)),
                    daProofSigShareArrived E (signDAProofSigShare E myProposal) myProposal]))))"

definition saveBlock :: "CommittedBlock \<Rightarrow> unit proc" where
  "saveBlock b =
     nested InvalidStateException
       (steps [checkForExit, modify (BlockDB_saveBlock b)])"

definition createBlock :: "env \<Rightarrow> createBlockCall \<Rightarrow> Schain \<Rightarrow> Schain" where
  "createBlock E c s =
     s\<lparr> createdBlocks := createdBlocks s @ [c],
        exitRequested := (exitRequested s \<or> exitDuringCreateBlock E s c) \<rparr>"

definition createBlockArgs :: "CommittedBlock \<Rightarrow> nat \<Rightarrow> createBlockCall" where
  "createBlockArgs b price =
     \<lparr> cbTransactions = transactionList b, cbTimeStamp = timeStamp b,
       cbTimeStampMs = timeStampMs b, cbBlockID = blockID b, cbPrice = price,
       cbStateRoot = stateRoot b \<rparr>"

definition pushBlockToExtFace :: "env \<Rightarrow> CommittedBlock \<Rightarrow> unit proc" where
  "pushBlockToExtFace E b =
     andThen checkForExit
       (nested InvalidStateException
          (andThen
             (withState (\<lambda>s. raiseIf
                (calculatePrice E s (transactionList b) (timeStamp b) (timeStampMs b) (blockID b))))
             (bind (withState (\<lambda>s. lift (readPrice E s (blockID b - 1))))
                (\<lambda>cur_price.
                   withState (\<lambda>s.
                     if extFace s
                     then steps [modify (createBlock E (createBlockArgs b cur_price)), checkForExit]
                     else ret ())))))"

definition processCommittedBlock :: "env \<Rightarrow> CommittedBlock \<Rightarrow> unit proc" where
  "processCommittedBlock E b =
     steps [
       CHECK_STATE (signature b \<noteq> None),
       checkForExit,
       nested InvalidStateException
         (steps [
            withState (\<lambda>s. ASSERT (lastCommittedBlockID s + 1 = blockID b)),
            modify (\<lambda>s. s\<lparr> totalTransactions :=
                         totalTransactions s + of_nat (length (transactionList b)) \<rparr>),
            saveBlock b,
            pushBlockToExtFace E b,
            modify (\<lambda>s. s\<lparr> lastCommittedBlockID := lastCommittedBlockID s + 1 \<rparr>),
            modify (\<lambda>s. s\<lparr> lastCommitTime := clock s \<rparr>)])]"

text \<open>
  Modelled from the spec: \<open>CommittedBlock::makeObject\<close> is not among the sources; a
  committed block is a block proposal plus the threshold signature of the decision.
\<close>

definition makeObject :: "BlockProposal \<Rightarrow> string option \<Rightarrow> CommittedBlock" where
  "makeObject p thresholdSig = p\<lparr> signature := thresholdSig \<rparr>"

definition blockCommitArrived ::
  "env \<Rightarrow> u64 \<Rightarrow> u64 \<Rightarrow> u64 \<Rightarrow> u64 \<Rightarrow> string option \<Rightarrow> unit proc" where
  "blockCommitArrived E committedBlockID proposerIdx committedTimeStamp committedTimeStampMs
       thresholdSig =
     steps [
       checkForExit,
       ASSERT (committedTimeStamp < 2 * MODERN_TIME E),
       withState (\<lambda>s.
         if committedBlockID \<le> lastCommittedBlockID s then ret ()
         else
           steps [
             ASSERT (committedBlockID = lastCommittedBlockID s + 1 \<or> lastCommittedBlockID s = 0),
             nested InvalidStateException
               (steps [
                  modify (\<lambda>t. t\<lparr> lastCommittedBlockTimeStamp := committedTimeStamp,
                                lastCommittedBlockTimeStampMs := committedTimeStampMs \<rparr>),
                  withState (\<lambda>t.
                    case blockProposalDB t (committedBlockID, proposerIdx) of
                      None \<Rightarrow> ASSERT False
                    | Some committedProposal \<Rightarrow>
                        steps [
                          processCommittedBlock E (makeObject committedProposal thresholdSig),
                          proposeNextBlock E committedTimeStamp (ucast committedTimeStampMs)])])])]"

text \<open>
  \<open>Schain::blockCommitsArrivedThroughCatchup\<close>: the loop over the blocks, then the
  function itself. The loop carries the time stamp of the last block it processed.
\<close>

fun catchupLoop :: "env \<Rightarrow> CommittedBlock list \<Rightarrow> u64 \<times> u32 \<Rightarrow> (u64 \<times> u32) proc" where
  "catchupLoop E [] prev = ret prev"
| "catchupLoop E (t # ts) prev =
     withState (\<lambda>s.
       if blockID t > lastCommittedBlockID s
       then andThen (processCommittedBlock E t)
              (catchupLoop E ts (timeStamp t, timeStampMs t))
       else catchupLoop E ts prev)"

definition blockCommitsArrivedThroughCatchup :: "env \<Rightarrow> CommittedBlock list \<Rightarrow> unit proc" where
  "blockCommitsArrivedThroughCatchup E b =
     (if b = [] then ret ()
      else
        withState (\<lambda>s.
          let committedIDOld = lastCommittedBlockID s in
          andThen (ASSERT (blockID (hd b) \<le> lastCommittedBlockID s + 1))
            (bind (catchupLoop E b (0, 0))
               (\<lambda>prev.
                  withState (\<lambda>t.
                    if committedIDOld < lastCommittedBlockID t
                    then proposeNextBlock E (fst prev) (snd prev)
                    else ret ())))))"

text \<open>
  \<open>Schain::bootstrap\<close>. Step 1 returns the block id the driver starts from: the host's,
  or one more when the block DB is one block ahead and that block was read and pushed.
  Its \<open>catch (...)\<close> swallows whatever reading or pushing the block throws. Step 2 sets
  the driver's fields and proposes; its \<open>catch (exception&)\<close> logs and returns.
\<close>

definition bootstrapStep1 :: "env \<Rightarrow> u64 \<Rightarrow> u64 proc" where
  "bootstrapStep1 E lastCommittedID =
     withState (\<lambda>s.
       let lastCommittedBlockIDInConsensus = blockDBLastCommitted s in
       andThen checkForExit
         (if lastCommittedBlockIDInConsensus = lastCommittedID + 1
          then
            catchAll
              (case blockDB s lastCommittedBlockIDInConsensus of
                 None \<Rightarrow> ret lastCommittedID
               | Some Corrupt \<Rightarrow> throw ParsingException
               | Some (Stored block) \<Rightarrow>
                   andThen (pushBlockToExtFace E block) (ret (lastCommittedID + 1)))
              (ret lastCommittedID)
          else if lastCommittedBlockIDInConsensus < lastCommittedID
          then throw InvalidStateException
          else if lastCommittedBlockIDInConsensus > lastCommittedID + 1
          then throw InvalidStateException
          else ret lastCommittedID))"

definition bootstrapStep2 :: "env \<Rightarrow> u64 \<Rightarrow> u64 \<Rightarrow> unit proc" where
  "bootstrapStep2 E lastCommittedID lastCommittedTimeStamp =
     catchAll
       (steps [
          withState (\<lambda>s. ASSERT (\<not> bootStrapped s)),
          modify (\<lambda>s. s\<lparr> bootStrapped := True, bootstrapBlockID := lastCommittedID \<rparr>),
          ASSERT (lastCommittedTimeStamp < 2 * MODERN_TIME E),
          modify (\<lambda>s. s\<lparr> lastCommittedBlockID := lastCommittedID,
                        lastCommitTime := clock s,
                        lastCommittedBlockTimeStamp := lastCommittedTimeStamp,
                        lastCommittedBlockTimeStampMs := 0 \<rparr>),
          withState (\<lambda>s.
            if lastCommittedBlockID s = 0
            then raiseIf (calculatePrice E s [] 0 0 0) else ret ()),
          withState (\<lambda>s.
            proposeNextBlock E (lastCommittedBlockTimeStamp s)
              (ucast (lastCommittedBlockTimeStampMs s))),
          withState (\<lambda>s.
            case proposalVectorDB s (lastCommittedID + 1) of
              None \<Rightarrow> ret ()
            | Some v \<Rightarrow>
                modify (\<lambda>t. t\<lparr> rebroadcast :=
                              rebroadcast t @ outgoingMsgDB t (lastCommittedID + 1) \<rparr>))])
       (ret ())"

definition bootstrap :: "env \<Rightarrow> u64 \<Rightarrow> u64 \<Rightarrow> unit proc" where
  "bootstrap E lastCommittedID lastCommittedTimeStamp =
     bind (bootstrapStep1 E lastCommittedID)
       (\<lambda>startID. bootstrapStep2 E startID lastCommittedTimeStamp)"

subsection \<open>Empty block proposals\<close>

text \<open>
  \<open>Schain::createEmptyBlockProposal\<close>: the local variables \<open>sec\<close> and \<open>ms\<close> after the
  \<open>if\<close>, and the proposal built from them. The constructor
  \<open>ReceivedBlockProposal(sChain, blockId, sec, ms)\<close> stores the block id and the two
  time stamps; the milliseconds narrow to the \<open>uint32_t\<close> field.
\<close>

definition emptyBlockTime :: "Schain \<Rightarrow> u64 \<times> u64" where
  "emptyBlockTime s =
     (let sec = lastCommittedBlockTimeStamp s; ms = lastCommittedBlockTimeStampMs s
      in if ms = 999 then (sec + 1, 0) else (sec, ms + 1))"

definition ReceivedBlockProposal :: "Schain \<Rightarrow> u64 \<Rightarrow> u64 \<Rightarrow> u64 \<Rightarrow> BlockProposal" where
  "ReceivedBlockProposal s bid sec ms =
     \<lparr> blockID = bid, proposerIndex = 0, proposerNodeID = 0, schainID = 0,
       timeStamp = sec, timeStampMs = ucast ms, transactionList = [],
       hash = [], signature = None, stateRoot = 0 \<rparr>"

definition createEmptyBlockProposal :: "Schain \<Rightarrow> u64 \<Rightarrow> BlockProposal" where
  "createEmptyBlockProposal s bid =
     (case emptyBlockTime s of (sec, ms) \<Rightarrow> ReceivedBlockProposal s bid sec ms)"

text \<open>The (sec, ms) order of time stamps, on their unsigned values.\<close>

definition tsLess :: "nat \<times> nat \<Rightarrow> nat \<times> nat \<Rightarrow> bool" where
  "tsLess a b = (fst a < fst b \<or> (fst a = fst b \<and> snd a < snd b))"

section \<open>The transport network (TransportNetwork.cpp)\<close>

text \<open>
  A network envelope is a network message and the node that sent it. The deferred
  message queue is a \<open>std::map\<close> from block id to a vector of envelopes: an association
  list in ascending key order. The delayed sends are a vector, indexed by schain index
  minus one, of deques of (message, peer) pairs. The node infos are listed in the order
  of \<open>getNodeInfosByIndex()\<close>; \<open>sendAttempts\<close> counts the calls of \<open>sendMessage\<close>.
\<close>

type_synonym NetEnvelope = "NetworkMessage \<times> NodeInfo"

record TransportNetwork =
  sChain :: Schain
  catchupBlocks :: u64
  deferredMessageQueue :: "(u64 \<times> NetEnvelope list) list"
  delayedSends :: "(NetworkMessage \<times> NodeInfo) list list"
  nodeInfosByIndex :: "NodeInfo list"
  baseIP :: u32
  sendAttempts :: nat

text \<open>
  \<open>sendMessage\<close> is virtual and implemented by the ZMQ transport, outside the sources:
  whether the n-th send succeeds is a parameter.
\<close>

type_synonym sendOracle = "nat \<Rightarrow> NodeInfo \<Rightarrow> NetworkMessage \<Rightarrow> bool"

datatype loopStatus = Continue | Return | Fatal

subsection \<open>The deferred message queue\<close>

fun insertDeferred ::
  "u64 \<Rightarrow> NetEnvelope \<Rightarrow> (u64 \<times> NetEnvelope list) list \<Rightarrow> (u64 \<times> NetEnvelope list) list" where
  "insertDeferred b e [] = [(b, [e])]"
| "insertDeferred b e ((k, l) # rest) =
     (if b = k then (k, l @ [e]) # rest
      else if b < k then (b, [e]) # (k, l) # rest
      else (k, l) # insertDeferred b e rest)"

definition addToDeferredMessageQueue :: "NetEnvelope \<Rightarrow> TransportNetwork \<Rightarrow> TransportNetwork" where
  "addToDeferredMessageQueue me n =
     n\<lparr> deferredMessageQueue :=
          insertDeferred (msgBlockID (fst me)) me (deferredMessageQueue n) \<rparr>"

text \<open>The envelopes deferred under a block id.\<close>

definition deferredAt :: "(u64 \<times> NetEnvelope list) list \<Rightarrow> u64 \<Rightarrow> NetEnvelope list" where
  "deferredAt q b = (case map_of q b of None \<Rightarrow> [] | Some l \<Rightarrow> l)"

definition pullMessagesForBlockID ::
  "u64 \<Rightarrow> TransportNetwork \<Rightarrow> NetEnvelope list \<times> TransportNetwork" where
  "pullMessagesForBlockID b n =
     (concat (map snd (filter (\<lambda>kl. fst kl \<le> b) (deferredMessageQueue n))),
      n\<lparr> deferredMessageQueue := filter (\<lambda>kl. \<not> fst kl \<le> b) (deferredMessageQueue n) \<rparr>)"

subsection \<open>Routing inbound envelopes\<close>

definition createDestinationProtocolKey :: "NetworkMessage \<Rightarrow> u64 \<times> u64" where
  "createDestinationProtocolKey m = (msgBlockID m, msgBlockProposerIndex m)"

text \<open>\<open>sChain->postMessage(m)\<close>, run on the driver the network belongs to.\<close>

definition postToSchain :: "NetEnvelope \<Rightarrow> TransportNetwork \<Rightarrow> (exn + unit) \<times> TransportNetwork" where
  "postToSchain me n =
     (case postMessage (NetworkMessageEnvelope (fst me) (snd me)) (sChain n) of
        (r, s') \<Rightarrow> (r, n\<lparr> sChain := s' \<rparr>))"

definition postOrDefer ::
  "NetEnvelope \<Rightarrow> u64 \<Rightarrow> TransportNetwork \<Rightarrow> (exn + unit) \<times> TransportNetwork" where
  "postOrDefer me currentBlockID n =
     (let msg = fst me in
      if msgBlockID msg > currentBlockID
      then (Inr (), addToDeferredMessageQueue me n)
      else if msgBlockID msg \<le> currentBlockID
      then
        (if msgRound msg > binRound (sChain n) (createDestinationProtocolKey msg) + 1
         then (Inr (), addToDeferredMessageQueue me n)
         else if msgRound msg = binRound (sChain n) (createDestinationProtocolKey msg) + 1
                 \<and> \<not> binDecided (sChain n) (createDestinationProtocolKey msg)
         then (Inr (), addToDeferredMessageQueue me n)
         else postToSchain me n)
      else postToSchain me n)"

text \<open>
  One pass through the body of the \<open>while\<close> loop of \<open>networkReadLoop\<close>, given what
  \<open>receiveMessage\<close> produced (an envelope, null, or an exception), and the loop itself over
  the sequence of what is received.
\<close>

definition networkReadBody ::
  "exn + NetEnvelope option \<Rightarrow> TransportNetwork \<Rightarrow> loopStatus \<times> TransportNetwork" where
  "networkReadBody received n =
     (case
        (case received of
           Inl e \<Rightarrow> (Inl e, n)
         | Inr None \<Rightarrow> (Inr (), n)
         | Inr (Some m) \<Rightarrow>
             if msgBlockID (fst m) \<le> catchupBlocks n then (Inr (), n)
             else postOrDefer m (lastCommittedBlockID (sChain n) + 1) n)
      of
        (Inr u, n') \<Rightarrow> (Continue, n')
      | (Inl ExitRequestedException, n') \<Rightarrow> (Return, n')
      | (Inl FatalError, n') \<Rightarrow> (Fatal, n')
      | (Inl e, n') \<Rightarrow> (if exitRequested (sChain n') then Return else Continue, n'))"

fun networkReadLoop ::
  "(exn + NetEnvelope option) list \<Rightarrow> TransportNetwork \<Rightarrow> loopStatus \<times> TransportNetwork" where
  "networkReadLoop [] n = (Continue, n)"
| "networkReadLoop (r # rs) n =
     (if exitRequested (sChain n) then (Return, n)
      else
        (case networkReadBody r n of
           (Continue, n') \<Rightarrow> networkReadLoop rs n'
         | (st, n') \<Rightarrow> (st, n')))"

subsection \<open>Broadcast and delayed sends\<close>

text \<open>
  The block under \<open>delayedSendsLock\<close> in \<open>broadcastMessage\<close>: \<open>push_back\<close>, then
  \<open>pop_front\<close> when the size is above 256.
\<close>

definition delayedPush ::
  "NetworkMessage \<times> NodeInfo \<Rightarrow> (NetworkMessage \<times> NodeInfo) list
     \<Rightarrow> (NetworkMessage \<times> NodeInfo) list" where
  "delayedPush x q = (let q' = q @ [x] in if length q' > 256 then tl q' else q')"

text \<open>One pass of the \<open>for\<close> loop inside the \<open>while\<close> loop: the indices sent to so far, and the
  number of send attempts.\<close>

fun sendPass ::
  "sendOracle \<Rightarrow> u64 \<Rightarrow> NetworkMessage \<Rightarrow> NodeInfo list \<Rightarrow> u64 list \<times> nat \<Rightarrow> u64 list \<times> nat" where
  "sendPass send me m [] st = st"
| "sendPass send me m (ni # nis) st =
     (let index = nodeSchainIndex ni - 1 in
      if index \<noteq> me - 1 \<and> index \<notin> set (fst st)
      then
        (if send (snd st) ni (m\<lparr> msgDstNodeID := nodeID ni \<rparr>)
         then sendPass send me m nis (fst st @ [index], Suc (snd st))
         else sendPass send me m nis (fst st, Suc (snd st)))
      else sendPass send me m nis st)"

text \<open>
  The \<open>while\<close> loop runs until two thirds of the nodes were sent to, which may be never:
  it is given fuel, and \<open>None\<close> is the loop still running when the fuel is used up.
\<close>

fun broadcastWhile ::
  "sendOracle \<Rightarrow> nat \<Rightarrow> u64 \<Rightarrow> nat \<Rightarrow> NetworkMessage \<Rightarrow> NodeInfo list \<Rightarrow> u64 list \<times> nat
     \<Rightarrow> (u64 list \<times> nat) option" where
  "broadcastWhile send 0 me cnt m nis st =
     (if 3 * (length (fst st) + 1) < cnt * 2 then None else Some st)"
| "broadcastWhile send (Suc fuel) me cnt m nis st =
     (if 3 * (length (fst st) + 1) < cnt * 2
      then broadcastWhile send fuel me cnt m nis (sendPass send me m nis st)
      else Some st)"

text \<open>
  The second \<open>for\<close> loop: the pair of each peer not sent to goes to the deque
  \<open>delayedSends[index]\<close>. The vector has one deque per node; an index outside it is
  undefined behaviour in the source, and \<open>None\<close> here.
\<close>

fun queueUnsent ::
  "NetworkMessage \<Rightarrow> u64 \<Rightarrow> u64 list \<Rightarrow> NodeInfo list
     \<Rightarrow> (NetworkMessage \<times> NodeInfo) list list
     \<Rightarrow> (NetworkMessage \<times> NodeInfo) list list option" where
  "queueUnsent m me sent [] ds = Some ds"
| "queueUnsent m me sent (ni # nis) ds =
     (let index = nodeSchainIndex ni - 1 in
      if index \<noteq> me - 1 \<and> index \<notin> set sent
      then
        (if unat index < length ds
         then queueUnsent m me sent nis
                (ds[unat index := delayedPush (m, ni) (ds ! unat index)])
         else None)
      else queueUnsent m me sent nis ds)"

text \<open>
  The message is shared by pointer: every pair queued by a call holds the message as the
  call leaves it, with the sender's IP set and the destination that the last loop wrote
  (the node id of the last peer, or the old destination when there is no peer).
\<close>

definition lastDestination :: "u64 \<Rightarrow> u64 \<Rightarrow> NodeInfo list \<Rightarrow> u64" where
  "lastDestination me oldID nis =
     (case filter (\<lambda>ni. nodeSchainIndex ni \<noteq> me) nis of
        [] \<Rightarrow> oldID
      | x # xs \<Rightarrow> nodeID (last (x # xs)))"

text \<open>
  What a call of \<open>broadcastMessage\<close> comes to: it returns, leaving the network in a new
  state; its \<open>while\<close> loop is still running when the fuel is used up; or it indexes
  \<open>delayedSends\<close> outside the vector.
\<close>

datatype 'a outcome = Finished 'a | StillRunning | OutOfRange

definition broadcastMessage ::
  "sendOracle \<Rightarrow> nat \<Rightarrow> NetworkMessage \<Rightarrow> TransportNetwork \<Rightarrow> TransportNetwork outcome" where
  "broadcastMessage send fuel m n =
     (if msgBlockID m \<le> catchupBlocks n then Finished n
      else
        let m1 = m\<lparr> msgIp := baseIP n \<rparr>;
            me = schainIndex (sChain n);
            nis = nodeInfosByIndex n;
            mLast = m1\<lparr> msgDstNodeID := lastDestination me (msgDstNodeID m) nis \<rparr>
        in
        (case broadcastWhile send fuel me (nodeCount (sChain n)) m1 nis ([], sendAttempts n) of
           None \<Rightarrow> StillRunning
         | Some (sent, attempts) \<Rightarrow>
             if length sent + 1 < nodeCount (sChain n)
             then
               (case queueUnsent mLast me sent nis (delayedSends n) of
                  None \<Rightarrow> OutOfRange
                | Some ds \<Rightarrow> Finished (n\<lparr> delayedSends := ds, sendAttempts := attempts \<rparr>))
             else Finished (n\<lparr> sendAttempts := attempts \<rparr>)))"

subsection \<open>The deferred messages loop\<close>

fun postOrDeferAll ::
  "NetEnvelope list \<Rightarrow> TransportNetwork \<Rightarrow> (exn + unit) \<times> TransportNetwork" where
  "postOrDeferAll [] n = (Inr (), n)"
| "postOrDeferAll (m # ms) n =
     (case postOrDefer m (lastCommittedBlockID (sChain n) + 1) n of
        (Inl e, n') \<Rightarrow> (Inl e, n')
      | (Inr u, n') \<Rightarrow> postOrDeferAll ms n')"

text \<open>The body of the \<open>for\<close> loop over the peers: retry the head of one deque.\<close>

definition retryHead :: "sendOracle \<Rightarrow> nat \<Rightarrow> TransportNetwork \<Rightarrow> TransportNetwork" where
  "retryHead send i n =
     (if of_nat i \<noteq> schainIndex (sChain n) - 1
      then
        (case delayedSends n ! i of
           [] \<Rightarrow> n
         | x # rest \<Rightarrow>
             if send (sendAttempts n) (snd x) (fst x)
             then n\<lparr> delayedSends := (delayedSends n)[i := rest],
                     sendAttempts := Suc (sendAttempts n) \<rparr>
             else n\<lparr> sendAttempts := Suc (sendAttempts n) \<rparr>)
      else n)"

fun retryAll :: "sendOracle \<Rightarrow> nat list \<Rightarrow> TransportNetwork \<Rightarrow> TransportNetwork" where
  "retryAll send [] n = n"
| "retryAll send (i # is) n = retryAll send is (retryHead send i n)"

text \<open>One pass through the body of the \<open>while\<close> loop of \<open>deferredMessagesLoop\<close>.\<close>

definition deferredMessagesBody ::
  "sendOracle \<Rightarrow> TransportNetwork \<Rightarrow> (exn + unit) \<times> TransportNetwork" where
  "deferredMessagesBody send n =
     (case pullMessagesForBlockID (lastCommittedBlockID (sChain n) + 1) n of
        (deferredMessages, n1) \<Rightarrow>
          (case postOrDeferAll deferredMessages n1 of
             (Inl e, n2) \<Rightarrow> (Inl e, n2)
           | (Inr u, n2) \<Rightarrow>
               (Inr (), retryAll send [0 ..< nodeCount (sChain n2)] n2)))"

text \<open>The network as its constructor leaves it: one empty deque per node.\<close>

definition newTransportNetwork :: "Schain \<Rightarrow> u64 \<Rightarrow> NodeInfo list \<Rightarrow> u32 \<Rightarrow> TransportNetwork" where
  "newTransportNetwork s cb nis ip =
     \<lparr> sChain = s, catchupBlocks = cb, deferredMessageQueue = [],
       delayedSends = replicate (nodeCount s) [], nodeInfosByIndex = nis, baseIP = ip,
       sendAttempts = 0 \<rparr>"

text \<open>Every deque of delayed sends holds at most 256 pairs, one deque per node.\<close>

definition delayedSendsBounded :: "TransportNetwork \<Rightarrow> bool" where
  "delayedSendsBounded n =
     (length (delayedSends n) = nodeCount (sChain n)
      \<and> list_all (\<lambda>q. length q \<le> 256) (delayedSends n))"

section \<open>Committed block serialization (CommittedBlock.cpp)\<close>

text \<open>
  A serialized block is a vector of bytes; bytes and the characters of the header string
  are the same 8-bit values, modelled as \<open>char\<close>. The header is a JSON object whose
  values are numbers, strings, arrays of numbers or null.
\<close>

datatype jval = JNull | JNum nat | JStr string | JArr "nat list"

type_synonym jobject = "(string \<times> jval) list"

text \<open>
  What the constructor and \<open>serialize\<close> call and the sources do not hold: the constant
  \<open>MAX_BUFFER_SIZE\<close>, the JSON library (\<open>nlohmann::json::parse\<close>, \<open>None\<close> when it
  throws, and \<open>dump\<close>), whether \<open>SHAHash::fromHex\<close> accepts a string, and
  \<open>calculateHash\<close> (SHA-256 over the header fields and the transactions). They are
  parameters.
\<close>

record serEnv =
  MAX_BUFFER_SIZE :: u64
  jsonParse :: "string \<Rightarrow> jobject option"
  jsonDump :: "jobject \<Rightarrow> string"
  fromHex :: "string \<Rightarrow> bool"
  calculateHash :: "BlockProposal \<Rightarrow> string"

subsection \<open>Header fields\<close>

text \<open>
  Modelled from the spec: \<open>Header::nullCheck\<close>, \<open>getUint64\<close>, \<open>getUint32\<close> and
  \<open>getString\<close> are not among the sources. A required field that is missing (the JSON
  library reads it as null) is rejected; so is a field whose value cannot be converted
  to the type asked for. Whatever they throw, the constructor rethrows as a
  \<open>ParsingException\<close>.
\<close>

definition jsonField :: "jobject \<Rightarrow> string \<Rightarrow> jval" where
  "jsonField js name = (case map_of js name of None \<Rightarrow> JNull | Some v \<Rightarrow> v)"

definition getUint64 :: "jobject \<Rightarrow> string \<Rightarrow> u64 option" where
  "getUint64 js name = (case jsonField js name of JNum n \<Rightarrow> Some (of_nat n) | _ \<Rightarrow> None)"

definition getUint32 :: "jobject \<Rightarrow> string \<Rightarrow> u32 option" where
  "getUint32 js name = (case jsonField js name of JNum n \<Rightarrow> Some (of_nat n) | _ \<Rightarrow> None)"

definition getString :: "jobject \<Rightarrow> string \<Rightarrow> string option" where
  "getString js name = (case jsonField js name of JStr s \<Rightarrow> Some s | _ \<Rightarrow> None)"

text \<open>The loop over \<open>js["sizes"]\<close>: iterating a number yields the number itself.\<close>

definition getSizes :: "jobject \<Rightarrow> nat list option" where
  "getSizes js =
     (case jsonField js ''sizes'' of
        JArr ns \<Rightarrow> Some ns | JNum n \<Rightarrow> Some [n] | _ \<Rightarrow> None)"

definition requiredFields :: "string list" where
  "requiredFields = [''proposerIndex'', ''proposerNodeID'', ''blockID'', ''schainID'',
     ''timeStamp'', ''timeStampMs'', ''hash'', ''sizes'']"

definition fieldMissing :: "jobject \<Rightarrow> bool" where
  "fieldMissing js = list_ex (\<lambda>name. jsonField js name = JNull) requiredFields"

subsection \<open>Deserialization\<close>

text \<open>The first eight bytes, read as a little-endian \<open>uint64_t\<close>.\<close>

definition readHeaderSize :: "string \<Rightarrow> u64" where
  "readHeaderSize bytes =
     of_nat (foldr (\<lambda>c acc. of_char c + 256 * acc) (take 8 bytes) (0 :: nat))"

text \<open>
  \<open>CommittedBlock::parseBlockHeader\<close>: the fields it assigns (as a block proposal
  without transactions) and the transaction sizes it returns; \<open>None\<close> when it throws.
\<close>

definition parseBlockHeader :: "serEnv \<Rightarrow> string \<Rightarrow> (BlockProposal \<times> nat list) option" where
  "parseBlockHeader P header =
     (if \<not> length header > 2 then None
      else if hd header \<noteq> CHR ''{'' then None
      else if last header \<noteq> CHR ''}'' then None
      else
        (case jsonParse P header of
           None \<Rightarrow> None
         | Some js \<Rightarrow>
             (case (getUint64 js ''proposerIndex'', getUint64 js ''proposerNodeID'',
                    getUint64 js ''blockID'', getUint64 js ''schainID'',
                    getUint64 js ''timeStamp'', getUint32 js ''timeStampMs'',
                    getString js ''hash'', getSizes js) of
                (Some pIndex, Some pNodeID, Some bID, Some sID, Some ts, Some tsMs,
                 Some h, Some sizes) \<Rightarrow>
                   if fromHex P h
                   then Some (\<lparr> blockID = bID, proposerIndex = pIndex,
                                proposerNodeID = pNodeID, schainID = sID, timeStamp = ts,
                                timeStampMs = tsMs, transactionList = [], hash = h,
                                signature = None, stateRoot = 0 \<rparr>, sizes)
                   else None
              | _ \<Rightarrow> None)))"

text \<open>
  Modelled from the spec: \<open>TransactionList::deserialize(sizes, bytes, offset)\<close> is not
  among the sources. A transaction list is serialized as the concatenated payloads, in
  the order of the declared sizes; deserialization cuts the payloads out of the bytes
  starting at the offset (the list's own test passes offset 0 for a bare list). Sizes
  that do not fit the bytes are impossible sizes, which the spec lists as a parse error:
  the function throws a \<open>ParsingException\<close> of its own.
\<close>

fun cutTransactions :: "nat list \<Rightarrow> string \<Rightarrow> Transaction list option" where
  "cutTransactions [] bytes = Some []"
| "cutTransactions (n # ns) bytes =
     (if length bytes < n then None
      else map_option ((#) (take n bytes)) (cutTransactions ns (drop n bytes)))"

definition TransactionList_deserialize ::
  "nat list \<Rightarrow> string \<Rightarrow> nat \<Rightarrow> exn + Transaction list" where
  "TransactionList_deserialize sizes bytes offset =
     (case cutTransactions sizes (drop offset bytes) of
        None \<Rightarrow> Inl ParsingException
      | Some txs \<Rightarrow> Inr txs)"

text \<open>
  The constructor \<open>CommittedBlock(ptr<vector<uint8_t>>)\<close>, that is,
  \<open>CommittedBlock::deserialize\<close>. Whatever \<open>parseBlockHeader\<close> throws is rethrown as
  a \<open>ParsingException\<close>; the call of \<open>TransactionList::deserialize\<close> stands outside
  that \<open>try\<close>, so what it throws leaves the constructor as it is. The transaction list
  is read at the offset the source passes, \<open>headerSize\<close>.
\<close>

definition CommittedBlock_deserialize :: "serEnv \<Rightarrow> string \<Rightarrow> exn + CommittedBlock" where
  "CommittedBlock_deserialize P serializedBlock =
     (let size = length serializedBlock in
      if size < 8 + 2 then Inl InvalidArgumentException
      else
        let headerSize = readHeaderSize serializedBlock in
        if headerSize < 2 \<or> headerSize + 8 > of_nat size then Inl InvalidArgumentException
        else if headerSize > MAX_BUFFER_SIZE P then Inl InvalidArgumentException
        else
          let header = take (unat headerSize) (drop 8 serializedBlock) in
          (case parseBlockHeader P header of
             None \<Rightarrow> Inl ParsingException
           | Some (parsed, transactionSizes) \<Rightarrow>
               (case TransactionList_deserialize transactionSizes serializedBlock
                       (unat headerSize) of
                  Inl e \<Rightarrow> Inl e
                | Inr txs \<Rightarrow>
                    let b = parsed\<lparr> transactionList := txs \<rparr>
                    in Inr (b\<lparr> hash := calculateHash P b \<rparr>))))"

subsection \<open>Serialization\<close>

text \<open>
  Modelled from the spec: \<open>CommittedBlockHeader\<close> and \<open>Header::toBuffer\<close> are not among
  the sources. The buffer is 8 bytes little-endian holding the length of the JSON that
  follows, then the JSON object with the fields proposerIndex, proposerNodeID, blockID,
  schainID, timeStamp, timeStampMs, hash and sizes (the transactions' byte lengths).
  \<open>Transaction::serializeInto\<close> appends the payload.
\<close>

definition toLE64 :: "nat \<Rightarrow> string" where
  "toLE64 n = map (\<lambda>i. char_of (n div 256 ^ i mod 256)) [0 ..< 8]"

definition headerJson :: "CommittedBlock \<Rightarrow> jobject" where
  "headerJson b =
     [(''proposerIndex'', JNum (unat (proposerIndex b))),
      (''proposerNodeID'', JNum (unat (proposerNodeID b))),
      (''blockID'', JNum (unat (blockID b))),
      (''schainID'', JNum (unat (schainID b))),
      (''timeStamp'', JNum (unat (timeStamp b))),
      (''timeStampMs'', JNum (unat (timeStampMs b))),
      (''hash'', JStr (hash b)),
      (''sizes'', JArr (map length (transactionList b)))]"

definition toBuffer :: "serEnv \<Rightarrow> CommittedBlock \<Rightarrow> string" where
  "toBuffer P b = (let s = jsonDump P (headerJson b) in toLE64 (length s) @ s)"

definition CommittedBlock_serialize :: "serEnv \<Rightarrow> CommittedBlock \<Rightarrow> exn + string" where
  "CommittedBlock_serialize P b =
     (let buf = toBuffer P b in
      if \<not> (8 < length buf \<and> buf ! 8 = CHR ''{'') then Inl FatalError
      else if last buf \<noteq> CHR ''}'' then Inl FatalError
      else Inr (buf @ concat (transactionList b)))"

text \<open>
  \<open>corrupt_byte_vector\<close> of the serialization tests, at a given position: the byte there
  is replaced by the byte plus one.
\<close>

definition corrupt_byte_vector :: "string \<Rightarrow> nat \<Rightarrow> string" where
  "corrupt_byte_vector bytes position =
     bytes[position := char_of (of_char (bytes ! position) + (1 :: nat))]"

subsection \<open>A JSON library for the header's fragment\<close>

text \<open>
  An instance of the JSON parameters, on the fragment of JSON that block headers use:
  objects whose values are unsigned numbers, strings without escapes, arrays of unsigned
  numbers and null, without white space.
\<close>

function decimal :: "nat \<Rightarrow> string" where
  "decimal n = (if n < 10 then [''0123456789'' ! n]
                else decimal (n div 10) @ [''0123456789'' ! (n mod 10)])"
  by pat_completeness auto
termination
  by (relation "measure id") auto

fun commaSep :: "string list \<Rightarrow> string" where
  "commaSep [] = []"
| "commaSep [x] = x"
| "commaSep (x # y # zs) = x @ '','' @ commaSep (y # zs)"

fun dumpValue :: "jval \<Rightarrow> string" where
  "dumpValue JNull = ''null''"
| "dumpValue (JNum n) = decimal n"
| "dumpValue (JStr s) = [CHR 0x22] @ s @ [CHR 0x22]"
| "dumpValue (JArr ns) = ''['' @ commaSep (map decimal ns) @ '']''"

definition dumpObject :: "jobject \<Rightarrow> string" where
  "dumpObject js =
     ''{'' @ commaSep (map (\<lambda>kv. [CHR 0x22] @ fst kv @ [CHR 0x22] @ '':'' @ dumpValue (snd kv)) js)
       @ ''}''"

definition isDigit :: "char \<Rightarrow> bool" where
  "isDigit c = (c \<in> set ''0123456789'')"

definition digitVal :: "char \<Rightarrow> nat" where
  "digitVal c = of_char c - 48"

fun natOfDigits :: "string \<Rightarrow> nat \<Rightarrow> nat" where
  "natOfDigits [] acc = acc"
| "natOfDigits (c # cs) acc = natOfDigits cs (10 * acc + digitVal c)"

definition parseNat :: "string \<Rightarrow> (nat \<times> string) option" where
  "parseNat s =
     (let ds = takeWhile isDigit s in
      if ds = [] then None else Some (natOfDigits ds 0, dropWhile isDigit s))"

definition parseStr :: "string \<Rightarrow> (string \<times> string) option" where
  "parseStr s =
     (case s of
        [] \<Rightarrow> None
      | c # r \<Rightarrow>
          if c \<noteq> CHR 0x22 then None
          else
            (case dropWhile (\<lambda>x. x \<noteq> CHR 0x22) r of
               [] \<Rightarrow> None
             | q # r' \<Rightarrow> Some (takeWhile (\<lambda>x. x \<noteq> CHR 0x22) r, r')))"

fun parseNums :: "nat \<Rightarrow> string \<Rightarrow> (nat list \<times> string) option" where
  "parseNums 0 s = None"
| "parseNums (Suc fuel) s =
     (case parseNat s of
        None \<Rightarrow> None
      | Some (n, r) \<Rightarrow>
          (case r of
             [] \<Rightarrow> None
           | c # r' \<Rightarrow>
               if c = CHR '']'' then Some ([n], r')
               else if c = CHR '','' then
                 map_option (\<lambda>p. (n # fst p, snd p)) (parseNums fuel r')
               else None))"

definition parseVal :: "string \<Rightarrow> (jval \<times> string) option" where
  "parseVal s =
     (case s of
        [] \<Rightarrow> None
      | c # r \<Rightarrow>
          if isDigit c then map_option (\<lambda>p. (JNum (fst p), snd p)) (parseNat s)
          else if c = CHR 0x22 then map_option (\<lambda>p. (JStr (fst p), snd p)) (parseStr s)
          else if c = CHR ''['' then
            (case r of
               [] \<Rightarrow> None
             | d # r' \<Rightarrow>
                 if d = CHR '']'' then Some (JArr [], r')
                 else map_option (\<lambda>p. (JArr (fst p), snd p)) (parseNums (length r) r))
          else if take 4 s = ''null'' then Some (JNull, drop 4 s)
          else None)"

fun parseMembers :: "nat \<Rightarrow> string \<Rightarrow> jobject option" where
  "parseMembers 0 s = None"
| "parseMembers (Suc fuel) s =
     (case parseStr s of
        None \<Rightarrow> None
      | Some (k, r) \<Rightarrow>
          (case r of
             [] \<Rightarrow> None
           | c # r' \<Rightarrow>
               if c \<noteq> CHR '':'' then None
               else
                 (case parseVal r' of
                    None \<Rightarrow> None
                  | Some (v, r'') \<Rightarrow>
                      if r'' = ''}'' then Some [(k, v)]
                      else
                        (case r'' of
                           [] \<Rightarrow> None
                         | d # r3 \<Rightarrow>
                             if d = CHR '','' then
                               map_option ((#) (k, v)) (parseMembers fuel r3)
                             else None))))"

definition parseObject :: "string \<Rightarrow> jobject option" where
  "parseObject s =
     (if s = ''{}'' then Some []
      else
        (case s of
           [] \<Rightarrow> None
         | c # r \<Rightarrow> if c = CHR ''{'' then parseMembers (length s) r else None))"

text \<open>
  The parameters used to evaluate the code: the JSON functions above, a hash accepted when
  it has 64 lower-case hexadecimal digits, and a \<open>calculateHash\<close> that keeps the hash the
  block has (SHA-256 itself plays no part in what is evaluated).
\<close>

definition serEnv0 :: serEnv where
  "serEnv0 =
     \<lparr> MAX_BUFFER_SIZE = 10000000, jsonParse = parseObject, jsonDump = dumpObject,
       fromHex = (\<lambda>h. length h = 64 \<and> list_all (\<lambda>c. c \<in> set ''0123456789abcdef'') h),
       calculateHash = (\<lambda>b. hash b) \<rparr>"

text \<open>
  The block of scenario S6 of the spec: block 7 of chain 1 by proposer 1, time stamp
  (1577836800, 250), transactions 0xAA x 5 and 0xBB x 5.
\<close>

definition blockS6 :: CommittedBlock where
  "blockS6 =
     \<lparr> blockID = 7, proposerIndex = 1, proposerNodeID = 10, schainID = 1,
       timeStamp = 1577836800, timeStampMs = 250,
       transactionList = [replicate 5 (CHR 0xAA), replicate 5 (CHR 0xBB)],
       hash = ''9f86d081884c7d659a2feaa0c55ad015a3bf4f1b2b0b822cd15d6c15b0f00a08'',
       signature = None, stateRoot = 0 \<rparr>"

text \<open>
  Its serialization: the header's length (193) in 8 bytes, the header, the ten payload
  bytes.
\<close>

definition headerS6 :: string where
  "headerS6 = dumpObject (headerJson blockS6)"

definition prefixS6 :: string where
  "prefixS6 = [CHR 0xC1, CHR 0x00, CHR 0x00, CHR 0x00, CHR 0x00, CHR 0x00, CHR 0x00, CHR 0x00]"

definition bytesS6 :: string where
  "bytesS6 = prefixS6 @ headerS6 @ replicate 5 (CHR 0xAA) @ replicate 5 (CHR 0xBB)"

text \<open>
  The block whose time stamp has 350 ms instead of 250 ms, and the bytes that differ from
  \<open>bytesS6\<close> in the byte at position 109 only: the digit 2 of the milliseconds, which
  is a 3 here.
\<close>

definition blockS6c :: CommittedBlock where
  "blockS6c = blockS6\<lparr> timeStampMs := 350 \<rparr>"

definition headerS6c :: string where
  "headerS6c = dumpObject (headerJson blockS6c)"

definition bytesS6c :: string where
  "bytesS6c = prefixS6 @ headerS6c @ replicate 5 (CHR 0xAA) @ replicate 5 (CHR 0xBB)"

text \<open>
  A block with one transaction of 1000 bytes, and its serialization cut after the header
  (194 bytes): the header declares 1000 bytes and no payload follows.
\<close>

definition blockLong :: CommittedBlock where
  "blockLong = blockS6\<lparr> transactionList := [replicate 1000 (CHR 0xAA)] \<rparr>"

definition headerLong :: string where
  "headerLong = dumpObject (headerJson blockLong)"

definition bytesCut :: string where
  "bytesCut =
     [CHR 0xC2, CHR 0x00, CHR 0x00, CHR 0x00, CHR 0x00, CHR 0x00, CHR 0x00, CHR 0x00] @ headerLong"

subsection \<open>The inputs that deserialization rejects\<close>

text \<open>
  The conditions as the specification lists them: the header size is below 2, the header
  size plus 8 exceeds the length of the input, the header size exceeds
  \<open>MAX_BUFFER_SIZE\<close>, the header does not start with an opening brace or does not end
  with a closing brace, or a required field is missing. A header that is not JSON has no
  fields at all, and counts as missing them.
\<close>

definition rejectsBySpec :: "serEnv \<Rightarrow> string \<Rightarrow> bool" where
  "rejectsBySpec P bytes =
     (let headerSize = readHeaderSize bytes;
          header = take (unat headerSize) (drop 8 bytes)
      in headerSize < 2 \<or> length bytes < unat headerSize + 8 \<or>
         MAX_BUFFER_SIZE P < headerSize \<or>
         hd header \<noteq> CHR ''{'' \<or> last header \<noteq> CHR ''}'' \<or>
         (case jsonParse P header of None \<Rightarrow> True | Some js \<Rightarrow> fieldMissing js))"

text \<open>
  The conditions under which the constructor throws. A header field is well typed when
  the getters can convert it: a number for the six numeric fields, a string for the hash,
  an array of numbers or a number for the sizes.
\<close>

definition isNum :: "jval \<Rightarrow> bool" where
  "isNum v = (case v of JNum n \<Rightarrow> True | _ \<Rightarrow> False)"

definition isStr :: "jval \<Rightarrow> bool" where
  "isStr v = (case v of JStr s \<Rightarrow> True | _ \<Rightarrow> False)"

definition isSizes :: "jval \<Rightarrow> bool" where
  "isSizes v = (case v of JArr ns \<Rightarrow> True | JNum n \<Rightarrow> True | _ \<Rightarrow> False)"

definition fieldsWellTyped :: "jobject \<Rightarrow> bool" where
  "fieldsWellTyped js =
     (isNum (jsonField js ''proposerIndex'') \<and> isNum (jsonField js ''proposerNodeID'') \<and>
      isNum (jsonField js ''blockID'') \<and> isNum (jsonField js ''schainID'') \<and>
      isNum (jsonField js ''timeStamp'') \<and> isNum (jsonField js ''timeStampMs'') \<and>
      isStr (jsonField js ''hash'') \<and> isSizes (jsonField js ''sizes''))"

definition hashField :: "jobject \<Rightarrow> string" where
  "hashField js = (case jsonField js ''hash'' of JStr s \<Rightarrow> s | _ \<Rightarrow> [])"

definition sizesField :: "jobject \<Rightarrow> nat list" where
  "sizesField js = (case jsonField js ''sizes'' of JArr ns \<Rightarrow> ns | JNum n \<Rightarrow> [n] | _ \<Rightarrow> [])"

text \<open>
  The conditions on the 8-byte length and on the header under which the constructor
  throws before it reads the transaction list.
\<close>

definition headerRejected :: "serEnv \<Rightarrow> string \<Rightarrow> bool" where
  "headerRejected P bytes =
     (let headerSize = readHeaderSize bytes;
          header = take (unat headerSize) (drop 8 bytes)
      in headerSize < 2 \<or> length bytes < unat headerSize + 8 \<or>
         MAX_BUFFER_SIZE P < headerSize \<or> length header \<le> 2 \<or>
         hd header \<noteq> CHR ''{'' \<or> last header \<noteq> CHR ''}'' \<or>
         (case jsonParse P header of
            None \<Rightarrow> True
          | Some js \<Rightarrow> \<not> fieldsWellTyped js \<or> \<not> fromHex P (hashField js)))"

text \<open>
  The transaction sizes that the header of an input declares, and the number of bytes
  that follow the header: the payload.
\<close>

definition declaredSizes :: "serEnv \<Rightarrow> string \<Rightarrow> nat list" where
  "declaredSizes P bytes =
     (case jsonParse P (take (unat (readHeaderSize bytes)) (drop 8 bytes)) of
        None \<Rightarrow> []
      | Some js \<Rightarrow> sizesField js)"

definition payloadLength :: "string \<Rightarrow> nat" where
  "payloadLength bytes = length bytes - (unat (readHeaderSize bytes) + 8)"

section \<open>Sample states\<close>

text \<open>A driver state used to instantiate the theorems.\<close>

definition schain0 :: Schain where
  "schain0 =
     \<lparr> lastCommittedBlockID = 5, lastCommittedBlockTimeStamp = 1577836800,
       lastCommittedBlockTimeStampMs = 999, lastCommitTime = 0, totalTransactions = 0,
       bootStrapped = True, bootstrapBlockID = 0, schainIndex = 1, exitRequested = False,
       clock = 77, extFace = True, createdBlocks = [], blockDB = (\<lambda>k. None),
       blockDBLastCommitted = 5, blockProposalDB = (\<lambda>k. None),
       proposalHashDB = (\<lambda>k. None), daProofDB = [], requiredSigners = 3, nodeCount = 4,
       proposalVectorDB = (\<lambda>k. None), outgoingMsgDB = (\<lambda>k. []), messageQueue = [],
       proposalQueue = [], proposingLog = [], rebroadcast = [],
       binRound = (\<lambda>k. 0), binDecided = (\<lambda>k. False) \<rparr>"


text \<open>Collaborators that always succeed, and a signed proposal for block 6.\<close>

definition proposal6 :: BlockProposal where
  "proposal6 =
     \<lparr> blockID = 6, proposerIndex = 1, proposerNodeID = 10, schainID = 1,
       timeStamp = 1577836801, timeStampMs = 250, transactionList = [[CHR 0xAA, CHR 0xAA], [CHR 0xBB]],
       hash = ''ab'', signature = Some ''sig'', stateRoot = 0 \<rparr>"

definition env0 :: env where
  "env0 =
     \<lparr> MODERN_TIME = 1547640182,
       buildBlockProposal = (\<lambda>s b ts ms. Inr (proposal6\<lparr> blockID := b, timeStamp := ts \<rparr>)),
       signDAProofSigShare = (\<lambda>p. Some ''share''),
       addAndMergeSigShareAndVerifySig = (\<lambda>s sh p. Inr None),
       calculatePrice = (\<lambda>s txs ts ms b. None),
       readPrice = (\<lambda>s b. Inr 1000),
       exitDuringCreateBlock = (\<lambda>s c. False) \<rparr>"

definition daProof5 :: DAProof where
  "daProof5 = \<lparr> daBlockId = 5, daProposerIndex = 2, daThresholdSig = ''t'' \<rparr>"

definition block6 :: CommittedBlock where
  "block6 = makeObject proposal6 (Some ''tsig'')"

definition block7 :: CommittedBlock where
  "block7 = block6\<lparr> blockID := 7 \<rparr>"

definition schain1 :: Schain where
  "schain1 = schain0\<lparr> blockProposalDB := (\<lambda>k. if k = (6, 1) then Some proposal6 else None) \<rparr>"

subsection \<open>Frames\<close>

text \<open>
  What a finalization commits (the block counter, the calls made to the host, the block
  DB, the host interface and the exit flag), what proposing leaves alone besides, and the
  statement that a procedure leaves a projection of the state as it was, whether it
  returns or throws.
\<close>

definition committed ::
  "Schain \<Rightarrow> u64 \<times> createBlockCall list \<times> (u64 \<Rightarrow> stored option) \<times> u64 \<times> bool \<times> bool" where
  "committed s = (lastCommittedBlockID s, createdBlocks s, blockDB s, blockDBLastCommitted s,
     extFace s, exitRequested s)"

definition stable ::
  "Schain \<Rightarrow> (u64 \<times> createBlockCall list \<times> (u64 \<Rightarrow> stored option) \<times> u64 \<times> bool \<times> bool)
     \<times> u64 list \<times> u64" where
  "stable s = (committed s, proposingLog s, schainIndex s)"

definition keeps :: "(Schain \<Rightarrow> 'b) \<Rightarrow> 'a proc \<Rightarrow> bool" where
  "keeps f m = (\<forall>s. f (snd (m s)) = f s)"

text \<open>The last three statements of step 2 of bootstrap, after the fields are set.\<close>

definition step2Tail :: "env \<Rightarrow> u64 \<Rightarrow> unit proc" where
  "step2Tail E startID =
     steps [
          withState (\<lambda>s.
            if lastCommittedBlockID s = 0
            then raiseIf (calculatePrice E s [] 0 0 0) else ret ()),
          withState (\<lambda>s.
            proposeNextBlock E (lastCommittedBlockTimeStamp s)
              (ucast (lastCommittedBlockTimeStampMs s))),
          withState (\<lambda>s.
            case proposalVectorDB s (startID + 1) of
              None \<Rightarrow> ret ()
            | Some v \<Rightarrow>
                modify (\<lambda>t. t\<lparr> rebroadcast :=
                              rebroadcast t @ outgoingMsgDB t (startID + 1) \<rparr>))]"

text \<open>
  A driver not yet bootstrapped whose block DB is one block ahead of the host (block 6,
  the host being at 5), and the same with the bytes of block 6 unreadable.
\<close>

definition schain8 :: Schain where
  "schain8 = schain0\<lparr> bootStrapped := False, blockDBLastCommitted := 6,
     blockDB := (\<lambda>k. if k = 6 then Some (Stored block6) else None) \<rparr>"

definition schain8c :: Schain where
  "schain8c = schain0\<lparr> bootStrapped := False, blockDBLastCommitted := 6,
     blockDB := (\<lambda>k. if k = 6 then Some Corrupt else None) \<rparr>"

text \<open>
  A chain of four nodes seen from node 1, a BVB message of node 2 for block 6, round 0,
  and a transport over which node 4 cannot be reached.
\<close>

definition nodes4 :: "NodeInfo list" where
  "nodes4 = [\<lparr> nodeID = 10, nodeSchainIndex = 1 \<rparr>, \<lparr> nodeID = 20, nodeSchainIndex = 2 \<rparr>,
             \<lparr> nodeID = 30, nodeSchainIndex = 3 \<rparr>, \<lparr> nodeID = 40, nodeSchainIndex = 4 \<rparr>]"

definition netmsg6 :: NetworkMessage where
  "netmsg6 = \<lparr> msgBlockID = 6, msgBlockProposerIndex = 2, msgRound = 0, msgBit = 1,
               msgSrcNodeID = 20, msgDstNodeID = 10, msgIp = 0 \<rparr>"

definition net0 :: TransportNetwork where
  "net0 = newTransportNetwork schain0 2 nodes4 167772161"

definition sendOracle4 :: sendOracle where
  "sendOracle4 k ni m = (nodeSchainIndex ni \<noteq> 4)"

text \<open>The network after that message was broadcast with node 4 unreachable.\<close>

definition net1 :: TransportNetwork where
  "net1 = net0\<lparr> delayedSends :=
            [[], [], [], [(netmsg6\<lparr> msgIp := 167772161, msgDstNodeID := 40 \<rparr>, nodes4 ! 3)]],
          sendAttempts := 3 \<rparr>"

text \<open>
  A transport over which the first send of a broadcast fails and node 4 cannot be reached,
  and the network after the message was broadcast over it: node 2 is reached on the second
  pass.
\<close>

definition sendOracleRetry :: sendOracle where
  "sendOracleRetry k ni m = (k \<noteq> 0 \<and> nodeSchainIndex ni \<noteq> 4)"

definition net2 :: TransportNetwork where
  "net2 = net1\<lparr> sendAttempts := 5 \<rparr>"

text \<open>
  A procedure that does not end the process: whatever the state, it returns or throws an
  exception.
\<close>

definition safe :: "'a proc \<Rightarrow> bool" where
  "safe m = (\<forall>s. fst (m s) \<noteq> Inl Segfault)"

text \<open>Collaborators as \<open>env0\<close>, but the pending-transactions agent fails to build a proposal.\<close>

definition envNoProposal :: env where
  "envNoProposal = env0\<lparr> buildBlockProposal := (\<lambda>s b ts ms. Inl InvalidStateException) \<rparr>"

section \<open>Theorems\<close>

subsection \<open>Words\<close>

lemma unat_succ_u64: "unat (x::u64) < 2 ^ 64 - 1 \<Longrightarrow> unat (x + 1) = Suc (unat x)"
  using unat_add_lem [of x 1] by simp

lemma unat_ucast_u32: "unat (m :: u64) < 2 ^ 32 \<Longrightarrow> unat (ucast m :: u32) = unat m"
  by (simp add: unsigned_ucast_eq take_bit_nat_eq_self)

subsection \<open>Empty-block time stamps\<close>

text \<open>
  \<open>createEmptyBlockProposal\<close> adds one millisecond to the driver's fields
  \<open>lastCommittedBlockTimeStamp\<close> and \<open>lastCommittedBlockTimeStampMs\<close>: it yields
  \<open>(sec + 1, 0)\<close> when the milliseconds are 999 and \<open>(sec, ms + 1)\<close> otherwise, a pair
  strictly above the fields in the (sec, ms) order. The counters are 64-bit; the statement
  is for values below their wrap-around points (the seconds below \<open>2^64 - 1\<close>, the
  milliseconds below \<open>2^32 - 1\<close>, the width of the proposal's field).
\<close>

lemma createEmptyBlockProposal_fields:
  assumes sec: "unat (lastCommittedBlockTimeStamp s) < 2 ^ 64 - 1"
    and ms: "unat (lastCommittedBlockTimeStampMs s) < 2 ^ 32 - 1"
  shows "emptyBlockTime s =
           (if lastCommittedBlockTimeStampMs s = 999
            then (lastCommittedBlockTimeStamp s + 1, 0)
            else (lastCommittedBlockTimeStamp s, lastCommittedBlockTimeStampMs s + 1))
    \<and> blockID (createEmptyBlockProposal s bid) = bid
    \<and> timeStamp (createEmptyBlockProposal s bid) = fst (emptyBlockTime s)
    \<and> unat (timeStampMs (createEmptyBlockProposal s bid)) = unat (snd (emptyBlockTime s))
    \<and> unat (timeStamp (createEmptyBlockProposal s bid)) * 1000
          + unat (timeStampMs (createEmptyBlockProposal s bid))
        = unat (lastCommittedBlockTimeStamp s) * 1000
          + unat (lastCommittedBlockTimeStampMs s) + 1
    \<and> tsLess (unat (lastCommittedBlockTimeStamp s), unat (lastCommittedBlockTimeStampMs s))
           (unat (timeStamp (createEmptyBlockProposal s bid)),
            unat (timeStampMs (createEmptyBlockProposal s bid)))"
proof -
  let ?sec = "lastCommittedBlockTimeStamp s"
  let ?ms = "lastCommittedBlockTimeStampMs s"
  have s1: "unat (?sec + 1) = Suc (unat ?sec)" using sec by (rule unat_succ_u64)
  have m1: "unat (?ms + 1) = Suc (unat ?ms)" using ms by (simp add: unat_succ_u64)
  have m2: "unat (ucast (?ms + 1) :: u32) = Suc (unat ?ms)"
    using m1 ms by (simp add: unat_ucast_u32)
  have m3: "?ms = 999 \<Longrightarrow> unat ?ms = 999" by simp
  show ?thesis
    using s1 m1 m2 m3
    by (simp add: emptyBlockTime_def createEmptyBlockProposal_def ReceivedBlockProposal_def
        tsLess_def Let_def)
qed

lemma createEmptyBlockProposal_fields_sample:
  "emptyBlockTime schain0 = (1577836801, 0)
   \<and> timeStamp (createEmptyBlockProposal schain0 6) = 1577836801
   \<and> unat (timeStampMs (createEmptyBlockProposal schain0 6)) = 0
   \<and> tsLess (1577836800, 999)
        (unat (timeStamp (createEmptyBlockProposal schain0 6)),
         unat (timeStampMs (createEmptyBlockProposal schain0 6)))"
proof -
  have f: "lastCommittedBlockTimeStamp schain0 = 1577836800"
    "lastCommittedBlockTimeStampMs schain0 = 999"
    by (simp_all add: schain0_def)
  have a: "unat (lastCommittedBlockTimeStamp schain0) < 2 ^ 64 - 1"
    by (simp add: f)
  have b: "unat (lastCommittedBlockTimeStampMs schain0) < 2 ^ 32 - 1"
    by (simp add: f)
  show ?thesis
    using createEmptyBlockProposal_fields [OF a b, of 6]
    by (clarsimp simp: f)
qed

subsection \<open>Stale inputs\<close>

lemmas proc_defs = ret_def throw_def bind_def andThen_def getState_def withState_def
  modify_def lift_def raiseIf_def ASSERT_def CHECK_STATE_def CHECK_ARGUMENT_def
  nested_def catchAll_def checkForExit_def

text \<open>
  C10. Stale inputs are dropped without any state change: a proposal whose block id is
  at most \<open>lastCommittedBlockID\<close> makes \<open>proposedBlockArrived\<close> return with the state as it
  was (nothing is stored), and a DA proof whose block id is at most
  \<open>lastCommittedBlockID\<close> makes \<open>daProofArrived\<close> return with the state as it was (no
  proof recorded, no vector saved, nothing posted to the message queue).
\<close>

theorem stale_inputs_dropped:
  "(blockID p \<le> lastCommittedBlockID s \<longrightarrow> proposedBlockArrived p s = (Inr (), s))
   \<and> (daBlockId d \<le> lastCommittedBlockID s \<longrightarrow> daProofArrived d s = (Inr (), s))"
  by (simp add: proposedBlockArrived_def daProofArrived_def proc_defs)

theorem stale_inputs_dropped_witness:
  "blockID (proposal6\<lparr> blockID := 3 \<rparr>) \<le> lastCommittedBlockID schain0
   \<and> proposedBlockArrived (proposal6\<lparr> blockID := 3 \<rparr>) schain0 = (Inr (), schain0)
   \<and> daBlockId daProof5 \<le> lastCommittedBlockID schain0
   \<and> daProofArrived daProof5 schain0 = (Inr (), schain0)"
proof -
  have a: "blockID (proposal6\<lparr> blockID := 3 \<rparr>) \<le> lastCommittedBlockID schain0"
    by (simp add: schain0_def)
  have b: "daBlockId daProof5 \<le> lastCommittedBlockID schain0"
    by (simp add: schain0_def daProof5_def)
  show ?thesis
    using a b stale_inputs_dropped [of "proposal6\<lparr> blockID := 3 \<rparr>" schain0 daProof5]
    by blast
qed

subsection \<open>Evaluating procedures\<close>

lemma if_proc: "(if c then f else g) s = (if c then f s else g s)"
  by simp

lemmas proc_simps = proc_defs if_proc steps.simps

subsection \<open>Frame lemmas\<close>

named_theorems keeps_intros

lemma keeps_ret [keeps_intros]: "keeps f (ret x)"
  by (simp add: keeps_def ret_def)

lemma keeps_throw [keeps_intros]: "keeps f (throw e)"
  by (simp add: keeps_def throw_def)

lemma keeps_getState [keeps_intros]: "keeps f getState"
  by (simp add: keeps_def getState_def)

lemma keeps_modify: "(\<And>s. f (h s) = f s) \<Longrightarrow> keeps f (modify h)"
  by (simp add: keeps_def modify_def)

lemma keeps_bind [keeps_intros]:
  "keeps f m \<Longrightarrow> (\<And>x. keeps f (g x)) \<Longrightarrow> keeps f (bind m g)"
  by (auto simp add: keeps_def bind_def split: prod.splits sum.splits) (metis snd_conv)+

lemma keeps_andThen [keeps_intros]: "keeps f m \<Longrightarrow> keeps f n \<Longrightarrow> keeps f (andThen m n)"
  by (simp add: andThen_def keeps_bind)

lemma keeps_withState [keeps_intros]: "(\<And>s. keeps f (g s)) \<Longrightarrow> keeps f (withState g)"
  by (simp add: withState_def keeps_bind keeps_getState)

lemma keeps_steps_Nil [keeps_intros]: "keeps f (steps [])"
  by (simp add: keeps_ret)

lemma keeps_steps_Cons [keeps_intros]:
  "keeps f a \<Longrightarrow> keeps f (steps as) \<Longrightarrow> keeps f (steps (a # as))"
  by (simp add: keeps_andThen)

lemma keeps_nested [keeps_intros]: "keeps f m \<Longrightarrow> keeps f (nested w m)"
  by (auto simp add: keeps_def nested_def split: prod.splits sum.splits) (metis snd_conv)+

lemma keeps_catchAll [keeps_intros]: "keeps f m \<Longrightarrow> keeps f h \<Longrightarrow> keeps f (catchAll m h)"
  by (auto simp add: keeps_def catchAll_def split: prod.splits sum.splits) (metis snd_conv)+

lemma keeps_lift [keeps_intros]: "keeps f (lift r)"
  by (cases r) (simp_all add: lift_def keeps_ret keeps_throw)

lemma keeps_raiseIf [keeps_intros]: "keeps f (raiseIf r)"
  by (cases r) (simp_all add: raiseIf_def keeps_ret keeps_throw)

lemma keeps_ASSERT [keeps_intros]: "keeps f (ASSERT c)"
  by (simp add: ASSERT_def keeps_ret keeps_throw)

lemma keeps_CHECK_STATE [keeps_intros]: "keeps f (CHECK_STATE c)"
  by (simp add: CHECK_STATE_def keeps_ret keeps_throw)

lemma keeps_CHECK_ARGUMENT [keeps_intros]: "keeps f (CHECK_ARGUMENT c)"
  by (simp add: CHECK_ARGUMENT_def keeps_ret keeps_throw)

lemma keeps_checkForExit [keeps_intros]: "keeps f checkForExit"
  by (simp add: checkForExit_def keeps_intros)

lemma keeps_if [keeps_intros]: "keeps f a \<Longrightarrow> keeps f b \<Longrightarrow> keeps f (if c then a else b)"
  by simp

lemma keeps_case_option [keeps_intros]:
  "keeps f a \<Longrightarrow> (\<And>y. keeps f (b y)) \<Longrightarrow> keeps f (case x of None \<Rightarrow> a | Some y \<Rightarrow> b y)"
  by (cases x) simp_all

lemma keeps_stable_committed: "keeps stable m \<Longrightarrow> keeps committed m"
  by (simp add: keeps_def stable_def)

lemma keeps_postMessage [keeps_intros]: "keeps stable (postMessage m)"
  unfolding postMessage_def
  by (intro keeps_intros keeps_modify) (simp add: stable_def committed_def)

lemma keeps_startConsensus [keeps_intros]: "keeps stable (startConsensus b v)"
  unfolding startConsensus_def
  by (intro keeps_intros)

lemma keeps_addDAProof [keeps_intros]: "keeps stable (addDAProof d)"
  by (simp add: keeps_def addDAProof_def stable_def committed_def Let_def)

lemma keeps_daProofArrived [keeps_intros]: "keeps stable (daProofArrived d)"
  unfolding daProofArrived_def
  by (intro keeps_intros keeps_modify) (simp add: stable_def committed_def saveVector_def)

lemma keeps_proposedBlockArrived [keeps_intros]: "keeps stable (proposedBlockArrived p)"
  unfolding proposedBlockArrived_def
  by (intro keeps_intros keeps_modify) (simp add: stable_def committed_def addBlockProposal_def)

lemma keeps_daProofSigShareArrived [keeps_intros]:
  "keeps stable (daProofSigShareArrived E sh p)"
  unfolding daProofSigShareArrived_def
  by (intro keeps_intros keeps_modify) (simp add: stable_def committed_def enqueueItem_def)

lemma keeps_proposeNextBlock: "keeps committed (proposeNextBlock E a b)"
  unfolding proposeNextBlock_def Let_def
  by (intro keeps_intros keeps_modify keeps_stable_committed)
     (simp_all add: committed_def enqueueItem_def checkAndSaveHash_def)

lemma keepsD: "keeps f m \<Longrightarrow> m s = (r, s') \<Longrightarrow> f s' = f s"
  by (auto simp add: keeps_def) (metis snd_conv)

lemma proposeNextBlock_log:
  assumes run: "proposeNextBlock E a b s = (r, s')"
  shows "(r = Inr () \<longrightarrow> proposingLog s' = proposingLog s @ [lastCommittedBlockID s + 1])
       \<and> (proposingLog s' = proposingLog s
          \<or> proposingLog s' = proposingLog s @ [lastCommittedBlockID s + 1])"
proof -
  let ?bid = "lastCommittedBlockID s + 1"
  let ?src = "if haveProposal s ?bid (schainIndex s)
                then (case blockProposalDB s (?bid, schainIndex s) of
                        None \<Rightarrow> throw Segfault
                      | Some p \<Rightarrow> ret p)
                else lift (buildBlockProposal E s ?bid a b)"
  obtain r0 s0 where src: "?src s = (r0, s0)" by (cases "?src s")
  have s0: "s0 = s"
    using src by (auto simp add: proc_simps split: if_splits option.splits sum.splits)
  show ?thesis
  proof (cases "exitRequested s")
    case True
    then show ?thesis using run by (auto simp add: proposeNextBlock_def proc_simps)
  next
    case noexit: False
    show ?thesis
    proof (cases r0)
      case (Inl e)
      then have "s' = s" using run noexit src s0
        by (simp add: proposeNextBlock_def proc_simps Let_def split: sum.splits)
      then show ?thesis using run noexit src s0 Inl
        by (auto simp add: proposeNextBlock_def proc_simps Let_def split: sum.splits)
    next
      case (Inr p)
      obtain r1 s1 where pa: "proposedBlockArrived p s = (r1, s1)"
        by (cases "proposedBlockArrived p s")
      have l1: "stable s1 = stable s" using keepsD [OF keeps_proposedBlockArrived pa] .
      define s2 where "s2 = enqueueItem (PushProposal p)
          (checkAndSaveHash ?bid (schainIndex s) (hash p)
            (s1\<lparr> proposingLog := proposingLog s1 @ [?bid] \<rparr>))"
      have l2: "proposingLog s2 = proposingLog s @ [?bid]"
        using l1 by (simp add: s2_def enqueueItem_def checkAndSaveHash_def stable_def)
      obtain r3 s3 where da: "daProofSigShareArrived E (signDAProofSigShare E p) p s2 = (r3, s3)"
        by (cases "daProofSigShareArrived E (signDAProofSigShare E p) p s2")
      have l3: "proposingLog s3 = proposingLog s @ [?bid]"
        using keepsD [OF keeps_daProofSigShareArrived da] l2 by (simp add: stable_def)
      show ?thesis
      proof (cases "proposerIndex p = schainIndex s \<and> signature p \<noteq> None")
        case False
        then show ?thesis using run noexit src s0 Inr
          by (auto simp add: proposeNextBlock_def proc_simps Let_def split: sum.splits if_splits)
      next
        case True
        show ?thesis
        proof (cases r1)
          case (Inl e)
          then show ?thesis using run noexit src s0 Inr True pa l1
            by (auto simp add: proposeNextBlock_def proc_simps Let_def stable_def)
        next
          case (Inr u)
          then have "proposeNextBlock E a b s =
              (case r3 of
                 Inl e \<Rightarrow>
                   (Inl (if e = ExitRequestedException \<or> e = Segfault then e
                         else InvalidStateException), s3)
               | Inr v \<Rightarrow> (Inr (), s3))"
            using noexit src s0 \<open>r0 = Inr p\<close> True pa da
            by (simp add: proposeNextBlock_def proc_simps Let_def s2_def split: sum.splits)
          then show ?thesis using run l3 by (cases r3) auto
        qed
      qed
    qed
  qed
qed

subsection \<open>Finalization\<close>

lemma saveBlock_frame:
  "saveBlock b s = (r, s') \<Longrightarrow>
     lastCommittedBlockID s' = lastCommittedBlockID s
   \<and> createdBlocks s' = createdBlocks s
   \<and> extFace s' = extFace s"
  by (auto simp add: saveBlock_def proc_simps BlockDB_saveBlock_def split: if_splits)

lemma pushBlockToExtFace_last:
  "pushBlockToExtFace E b s = (r, s') \<Longrightarrow> lastCommittedBlockID s' = lastCommittedBlockID s"
  by (auto simp add: pushBlockToExtFace_def proc_simps createBlock_def
      split: option.splits sum.splits if_splits)

lemma pushBlockToExtFace_ok:
  "pushBlockToExtFace E b s = (Inr (), s') \<Longrightarrow>
     (extFace s \<longrightarrow> (\<exists>price. createdBlocks s' = createdBlocks s @ [createBlockArgs b price]))
     \<and> (\<not> extFace s \<longrightarrow> createdBlocks s' = createdBlocks s)"
  by (auto simp add: pushBlockToExtFace_def proc_simps createBlock_def
      split: option.splits sum.splits if_splits)

lemma processCommittedBlock_effect:
  assumes run: "processCommittedBlock E b s = (r, s')"
  shows "(r = Inr () \<longrightarrow>
            blockID b = lastCommittedBlockID s + 1
          \<and> lastCommittedBlockID s' = lastCommittedBlockID s + 1
          \<and> (extFace s \<longrightarrow>
                (\<exists>price. createdBlocks s' = createdBlocks s @ [createBlockArgs b price]))
          \<and> (\<not> extFace s \<longrightarrow> createdBlocks s' = createdBlocks s))
       \<and> (r \<noteq> Inr () \<longrightarrow> lastCommittedBlockID s' = lastCommittedBlockID s)
       \<and> (blockID b \<noteq> lastCommittedBlockID s + 1 \<longrightarrow> r \<noteq> Inr () \<and> s' = s)
       \<and> (unat (lastCommittedBlockID s) < 2 ^ 64 - 1 \<longrightarrow>
            unat (lastCommittedBlockID s) \<le> unat (lastCommittedBlockID s'))"
proof -
  have mono: "unat (lastCommittedBlockID s) < 2 ^ 64 - 1 \<Longrightarrow>
      unat (lastCommittedBlockID s) \<le> unat (lastCommittedBlockID s + 1)"
    by (simp add: unat_succ_u64)
  define s1 where "s1 = s\<lparr> totalTransactions :=
                         totalTransactions s + of_nat (length (transactionList b)) \<rparr>"
  obtain r2 s2 where sv: "saveBlock b s1 = (r2, s2)" by (cases "saveBlock b s1")
  obtain r3 s3 where pv: "pushBlockToExtFace E b s2 = (r3, s3)"
    by (cases "pushBlockToExtFace E b s2")
  have f2: "lastCommittedBlockID s2 = lastCommittedBlockID s" "createdBlocks s2 = createdBlocks s"
    "extFace s2 = extFace s"
    using saveBlock_frame [OF sv] by (simp_all add: s1_def)
  have f3: "lastCommittedBlockID s3 = lastCommittedBlockID s"
    using pushBlockToExtFace_last [OF pv] f2 by simp
  have p3: "r3 = Inr () \<Longrightarrow>
     (extFace s \<longrightarrow> (\<exists>price. createdBlocks s3 = createdBlocks s @ [createBlockArgs b price]))
     \<and> (\<not> extFace s \<longrightarrow> createdBlocks s3 = createdBlocks s)"
    using pushBlockToExtFace_ok [of E b s2 s3] pv f2 by simp
  show ?thesis
  proof (cases "signature b \<noteq> None \<and> \<not> exitRequested s \<and> lastCommittedBlockID s + 1 = blockID b")
    case False
    then show ?thesis using run
      by (auto simp add: processCommittedBlock_def proc_simps split: if_splits)
  next
    case True
    have body: "processCommittedBlock E b s =
       (case r2 of
          Inl e \<Rightarrow> (Inl (if e = ExitRequestedException \<or> e = Segfault then e
                         else InvalidStateException), s2)
        | Inr u \<Rightarrow>
           (case r3 of
              Inl e \<Rightarrow> (Inl (if e = ExitRequestedException \<or> e = Segfault then e
                         else InvalidStateException), s3)
            | Inr v \<Rightarrow> (Inr (), s3\<lparr> lastCommittedBlockID := lastCommittedBlockID s3 + 1,
                                   lastCommitTime := clock s3 \<rparr>)))"
      using True sv pv
      by (simp add: processCommittedBlock_def proc_simps s1_def [symmetric] split: sum.splits)
    show ?thesis
      using run f2 f3 p3 True mono unfolding body
      by (cases r2; cases r3) auto
  qed
qed

lemma keeps_proj: "keeps f m \<Longrightarrow> (\<And>s. h s = g (f s)) \<Longrightarrow> keeps h m"
  by (simp add: keeps_def)

lemma blockCommitArrived_exit:
  "exitRequested s \<Longrightarrow>
     blockCommitArrived E B idx ts tsMs sig s = (Inl ExitRequestedException, s)"
  by (simp add: blockCommitArrived_def proc_simps)

lemma blockCommitArrived_badTime:
  "\<not> exitRequested s \<Longrightarrow> \<not> ts < 2 * MODERN_TIME E \<Longrightarrow>
     blockCommitArrived E B idx ts tsMs sig s = (Inl FatalError, s)"
  by (simp add: blockCommitArrived_def proc_simps)

lemma blockCommitArrived_ignored:
  "\<not> exitRequested s \<Longrightarrow> ts < 2 * MODERN_TIME E \<Longrightarrow> B \<le> lastCommittedBlockID s \<Longrightarrow>
     blockCommitArrived E B idx ts tsMs sig s = (Inr (), s)"
  by (simp add: blockCommitArrived_def proc_simps)

lemma blockCommitArrived_violation:
  "\<not> exitRequested s \<Longrightarrow> ts < 2 * MODERN_TIME E \<Longrightarrow> \<not> B \<le> lastCommittedBlockID s \<Longrightarrow>
   \<not> (B = lastCommittedBlockID s + 1 \<or> lastCommittedBlockID s = 0) \<Longrightarrow>
     blockCommitArrived E B idx ts tsMs sig s = (Inl FatalError, s)"
  by (simp add: blockCommitArrived_def proc_simps)

lemma blockCommitArrived_counter:
  assumes run: "blockCommitArrived E B idx ts tsMs sig s = (r, s')"
  shows "(lastCommittedBlockID s' = lastCommittedBlockID s
           \<or> lastCommittedBlockID s' = lastCommittedBlockID s + 1)
       \<and> (r = Inr () \<and> \<not> B \<le> lastCommittedBlockID s \<longrightarrow>
            lastCommittedBlockID s' = lastCommittedBlockID s + 1)"
proof (cases "\<not> exitRequested s \<and> ts < 2 * MODERN_TIME E \<and> \<not> B \<le> lastCommittedBlockID s
              \<and> (B = lastCommittedBlockID s + 1 \<or> lastCommittedBlockID s = 0)")
  case False
  then have "s' = s \<and> (r = Inr () \<longrightarrow> B \<le> lastCommittedBlockID s)"
    using run blockCommitArrived_exit [of s E B idx ts tsMs sig]
      blockCommitArrived_badTime [of s ts E B idx tsMs sig]
      blockCommitArrived_ignored [of s ts E B idx tsMs sig]
      blockCommitArrived_violation [of s ts E B idx tsMs sig]
    by auto
  then show ?thesis by auto
next
  case True
  define s1 where "s1 = s\<lparr> lastCommittedBlockTimeStamp := ts,
                           lastCommittedBlockTimeStampMs := tsMs \<rparr>"
  show ?thesis
  proof (cases "blockProposalDB s (B, idx)")
    case None
    then have "blockCommitArrived E B idx ts tsMs sig s = (Inl InvalidStateException, s1)"
      using True by (simp add: blockCommitArrived_def proc_simps s1_def)
    then show ?thesis using run by (auto simp add: s1_def)
  next
    case (Some p)
    obtain r2 s2 where pc: "processCommittedBlock E (makeObject p sig) s1 = (r2, s2)"
      by (cases "processCommittedBlock E (makeObject p sig) s1")
    obtain r3 s3 where pn: "proposeNextBlock E ts (ucast tsMs) s2 = (r3, s3)"
      by (cases "proposeNextBlock E ts (ucast tsMs) s2")
    have body: "blockCommitArrived E B idx ts tsMs sig s =
       (case r2 of
          Inl e \<Rightarrow> (Inl (if e = ExitRequestedException \<or> e = Segfault then e
                         else InvalidStateException), s2)
        | Inr u \<Rightarrow>
           (case r3 of
              Inl e \<Rightarrow> (Inl (if e = ExitRequestedException \<or> e = Segfault then e
                         else InvalidStateException), s3)
            | Inr v \<Rightarrow> (Inr (), s3)))"
      using True Some pc pn
      by (simp add: blockCommitArrived_def proc_simps s1_def [symmetric] split: sum.splits)
    have e2: "(r2 = Inr () \<longrightarrow> lastCommittedBlockID s2 = lastCommittedBlockID s + 1)
            \<and> (r2 \<noteq> Inr () \<longrightarrow> lastCommittedBlockID s2 = lastCommittedBlockID s)"
      using processCommittedBlock_effect [OF pc] by (simp add: s1_def)
    have e3: "lastCommittedBlockID s3 = lastCommittedBlockID s2"
      using keepsD [OF keeps_proposeNextBlock pn] by (simp add: committed_def)
    show ?thesis
      using run e2 e3 unfolding body
      by (cases r2; cases r3) (auto split: if_splits)
  qed
qed

lemma catchupLoop_counter:
  "catchupLoop E bs prev s = (r, s') \<Longrightarrow>
     \<exists>k\<le>length bs. lastCommittedBlockID s' = lastCommittedBlockID s + of_nat k"
proof (induction bs arbitrary: prev s)
  case Nil
  then show ?case by (simp add: ret_def)
next
  case (Cons t ts)
  show ?case
  proof (cases "blockID t > lastCommittedBlockID s")
    case False
    then have "catchupLoop E ts prev s = (r, s')"
      using Cons.prems by (simp add: proc_simps)
    from Cons.IH [OF this] obtain k where "k \<le> length ts"
      "lastCommittedBlockID s' = lastCommittedBlockID s + of_nat k" by auto
    then show ?thesis by (intro exI [of _ k]) simp
  next
    case True
    obtain r1 s1 where pc: "processCommittedBlock E t s = (r1, s1)"
      by (cases "processCommittedBlock E t s")
    have e1: "(r1 = Inr () \<longrightarrow> lastCommittedBlockID s1 = lastCommittedBlockID s + 1)
            \<and> (r1 \<noteq> Inr () \<longrightarrow> lastCommittedBlockID s1 = lastCommittedBlockID s)"
      using processCommittedBlock_effect [OF pc] by simp
    show ?thesis
    proof (cases r1)
      case (Inl e)
      then have "s' = s1" using Cons.prems True pc by (simp add: proc_simps)
      then show ?thesis using e1 Inl by (intro exI [of _ 0]) simp
    next
      case (Inr u)
      then have "catchupLoop E ts (timeStamp t, timeStampMs t) s1 = (r, s')"
        using Cons.prems True pc by (simp add: proc_simps)
      from Cons.IH [OF this] obtain k where k: "k \<le> length ts"
        "lastCommittedBlockID s' = lastCommittedBlockID s1 + of_nat k" by auto
      then show ?thesis using e1 Inr by (intro exI [of _ "Suc k"]) simp
    qed
  qed
qed

lemma blockCommitsArrivedThroughCatchup_counter:
  assumes run: "blockCommitsArrivedThroughCatchup E bs s = (r, s')"
  shows "\<exists>k\<le>length bs. lastCommittedBlockID s' = lastCommittedBlockID s + of_nat k"
proof (cases "bs = [] \<or> \<not> blockID (hd bs) \<le> lastCommittedBlockID s + 1")
  case True
  then have "s' = s" using run
    by (auto simp add: blockCommitsArrivedThroughCatchup_def proc_simps Let_def split: if_splits)
  then show ?thesis by (intro exI [of _ 0]) simp
next
  case False
  obtain r1 s1 where lp: "catchupLoop E bs (0, 0) s = (r1, s1)"
    by (cases "catchupLoop E bs (0, 0) s")
  from catchupLoop_counter [OF lp] obtain k where k: "k \<le> length bs"
    "lastCommittedBlockID s1 = lastCommittedBlockID s + of_nat k" by auto
  have "lastCommittedBlockID s' = lastCommittedBlockID s1"
  proof (cases r1)
    case (Inl e)
    then show ?thesis using run False lp
      by (auto simp add: blockCommitsArrivedThroughCatchup_def proc_simps Let_def split: if_splits)
  next
    case (Inr prev)
    obtain r3 s3 where pn: "proposeNextBlock E (fst prev) (snd prev) s1 = (r3, s3)"
      by (cases "proposeNextBlock E (fst prev) (snd prev) s1")
    have "lastCommittedBlockID s3 = lastCommittedBlockID s1"
      using keepsD [OF keeps_proposeNextBlock pn] by (simp add: committed_def)
    then show ?thesis using run False lp Inr pn
      by (auto simp add: blockCommitsArrivedThroughCatchup_def proc_simps Let_def split: if_splits)
  qed
  then show ?thesis using k by auto
qed

lemmas eval_defs = processCommittedBlock_def saveBlock_def pushBlockToExtFace_def proc_simps
  block6_def block7_def makeObject_def proposal6_def schain0_def schain1_def env0_def
  BlockDB_saveBlock_def createBlock_def createBlockArgs_def proposeNextBlock_def
  proposedBlockArrived_def daProofSigShareArrived_def haveProposal_def Let_def
  addBlockProposal_def checkAndSaveHash_def enqueueItem_def blockCommitArrived_def
  blockCommitsArrivedThroughCatchup_def

text \<open>
  C1. \<open>lastCommittedBlockID\<close> is incremented by exactly 1 per finalization and never
  decreases. \<open>processCommittedBlock\<close> is the only place of the driver that increments
  it. A call on a block whose id is not \<open>lastCommittedBlockID + 1\<close> fails and leaves
  the state as it was; a call that returns has increased the counter by exactly 1 and, when
  a host is attached, has called the host's \<open>createBlock\<close> exactly once, with this block;
  a call that throws leaves the counter as it was, and below the 64-bit wrap-around
  point the counter does not decrease. The two finalization entry points move the counter
  by such increments only: \<open>blockCommitArrived\<close> by none or one (one when it returns for
  a block above the counter), \<open>blockCommitsArrivedThroughCatchup\<close> by at most one per
  block of its list.
\<close>

theorem lastCommittedBlockID_increment:
  "(processCommittedBlock E b s = (r, s') \<longrightarrow>
      (r = Inr () \<longrightarrow>
            blockID b = lastCommittedBlockID s + 1
          \<and> lastCommittedBlockID s' = lastCommittedBlockID s + 1
          \<and> (extFace s \<longrightarrow>
                (\<exists>price. createdBlocks s' = createdBlocks s @ [createBlockArgs b price]))
          \<and> (\<not> extFace s \<longrightarrow> createdBlocks s' = createdBlocks s))
       \<and> (r \<noteq> Inr () \<longrightarrow> lastCommittedBlockID s' = lastCommittedBlockID s)
       \<and> (blockID b \<noteq> lastCommittedBlockID s + 1 \<longrightarrow> r \<noteq> Inr () \<and> s' = s)
       \<and> (unat (lastCommittedBlockID s) < 2 ^ 64 - 1 \<longrightarrow>
            unat (lastCommittedBlockID s) \<le> unat (lastCommittedBlockID s')))
   \<and> (blockCommitArrived E B idx ts tsMs sig t = (q, t') \<longrightarrow>
        (lastCommittedBlockID t' = lastCommittedBlockID t
           \<or> lastCommittedBlockID t' = lastCommittedBlockID t + 1)
       \<and> (q = Inr () \<and> \<not> B \<le> lastCommittedBlockID t \<longrightarrow>
            lastCommittedBlockID t' = lastCommittedBlockID t + 1))
   \<and> (blockCommitsArrivedThroughCatchup E bs u = (p, u') \<longrightarrow>
        (\<exists>k\<le>length bs. lastCommittedBlockID u' = lastCommittedBlockID u + of_nat k))"
proof (intro conjI)
  show "blockCommitsArrivedThroughCatchup E bs u = (p, u') \<longrightarrow>
        (\<exists>k\<le>length bs. lastCommittedBlockID u' = lastCommittedBlockID u + of_nat k)"
    using blockCommitsArrivedThroughCatchup_counter [of E bs u p u'] by blast
  show "blockCommitArrived E B idx ts tsMs sig t = (q, t') \<longrightarrow>
        (lastCommittedBlockID t' = lastCommittedBlockID t
           \<or> lastCommittedBlockID t' = lastCommittedBlockID t + 1)
       \<and> (q = Inr () \<and> \<not> B \<le> lastCommittedBlockID t \<longrightarrow>
            lastCommittedBlockID t' = lastCommittedBlockID t + 1)"
    using blockCommitArrived_counter [of E B idx ts tsMs sig t q t'] by blast
  show "processCommittedBlock E b s = (r, s') \<longrightarrow>
      (r = Inr () \<longrightarrow>
            blockID b = lastCommittedBlockID s + 1
          \<and> lastCommittedBlockID s' = lastCommittedBlockID s + 1
          \<and> (extFace s \<longrightarrow>
                (\<exists>price. createdBlocks s' = createdBlocks s @ [createBlockArgs b price]))
          \<and> (\<not> extFace s \<longrightarrow> createdBlocks s' = createdBlocks s))
       \<and> (r \<noteq> Inr () \<longrightarrow> lastCommittedBlockID s' = lastCommittedBlockID s)
       \<and> (blockID b \<noteq> lastCommittedBlockID s + 1 \<longrightarrow> r \<noteq> Inr () \<and> s' = s)
       \<and> (unat (lastCommittedBlockID s) < 2 ^ 64 - 1 \<longrightarrow>
            unat (lastCommittedBlockID s) \<le> unat (lastCommittedBlockID s'))"
    using processCommittedBlock_effect [of E b s r s'] by blast
qed

theorem lastCommittedBlockID_increment_witness:
  "fst (processCommittedBlock env0 block6 schain0) = Inr ()
   \<and> blockID block6 = lastCommittedBlockID schain0 + 1
   \<and> lastCommittedBlockID (snd (processCommittedBlock env0 block6 schain0)) = 6
   \<and> length (createdBlocks (snd (processCommittedBlock env0 block6 schain0))) = 1
   \<and> fst (blockCommitArrived env0 6 1 1577836801 250 (Some ''tsig'') schain1) = Inr ()
   \<and> lastCommittedBlockID
        (snd (blockCommitArrived env0 6 1 1577836801 250 (Some ''tsig'') schain1)) = 6
   \<and> lastCommittedBlockID
        (snd (blockCommitsArrivedThroughCatchup env0 [block6, block7] schain0)) = 7
   \<and> (\<exists>k\<le>2. lastCommittedBlockID
        (snd (blockCommitsArrivedThroughCatchup env0 [block6, block7] schain0)) = 5 + of_nat k)"
proof -
  let ?p = "processCommittedBlock env0 block6 schain0"
  let ?a = "blockCommitArrived env0 6 1 1577836801 250 (Some ''tsig'') schain1"
  let ?c = "blockCommitsArrivedThroughCatchup env0 [block6, block7] schain0"
  have ev: "fst ?p = Inr ()" "fst ?a = Inr ()"
    "lastCommittedBlockID (snd ?c) = 7"
    by (simp_all add: eval_defs)
  have f: "lastCommittedBlockID schain0 = 5" "extFace schain0" "createdBlocks schain0 = []"
    "lastCommittedBlockID schain1 = 5"
    by (simp_all add: schain0_def schain1_def)
  have runp: "?p = (Inr (), snd ?p)" using ev(1) by (metis prod.collapse)
  have runa: "?a = (Inr (), snd ?a)" using ev(2) by (metis prod.collapse)
  note T = lastCommittedBlockID_increment
    [of env0 block6 schain0 "Inr ()" "snd ?p" 6 1 1577836801 250 "Some ''tsig''" schain1
        "Inr ()" "snd ?a" "[block6, block7]" schain0 "fst ?c" "snd ?c"]
  have p1: "blockID block6 = lastCommittedBlockID schain0 + 1"
    and p2: "lastCommittedBlockID (snd ?p) = 6"
    and p3: "\<exists>price. createdBlocks (snd ?p) = [createBlockArgs block6 price]"
    using T [THEN conjunct1] runp f by simp_all
  have p4: "length (createdBlocks (snd ?p)) = 1"
    using p3 by auto
  have a: "lastCommittedBlockID (snd ?a) = 6"
    using T [THEN conjunct2, THEN conjunct1] runa f by simp
  have c: "\<exists>k\<le>2. lastCommittedBlockID (snd ?c) = 5 + of_nat k"
    using T [THEN conjunct2, THEN conjunct2] f by (simp add: numeral_2_eq_2)
  show ?thesis using p1 p2 p4 a c ev by simp
qed

subsection \<open>Empty blocks after catch-up\<close>

text \<open>
  C7, for a driver that received blocks through catch-up. The fields that
  \<open>createEmptyBlockProposal\<close> reads are written by \<open>blockCommitArrived\<close> and by
  bootstrap only; \<open>blockCommitsArrivedThroughCatchup\<close> commits blocks and leaves them as
  they were. With the fields at (1577836800, 999), the time stamp of block 5, blocks 6 and
  7 arrive through catch-up; block 7, the last committed block, has (1577836801, 250).
  The empty proposal for block 8 gets (1577836801, 0): one millisecond above the stale
  fields, and below its predecessor.
\<close>

theorem emptyBlock_after_catchup:
  "lastCommittedBlockID (snd (blockCommitsArrivedThroughCatchup env0 [block6, block7] schain0)) = 7
   \<and> fst (blockCommitsArrivedThroughCatchup env0 [block6, block7] schain0) = Inr ()
   \<and> (timeStamp block7, timeStampMs block7) = (1577836801, 250)
   \<and> (timeStamp (createEmptyBlockProposal
          (snd (blockCommitsArrivedThroughCatchup env0 [block6, block7] schain0)) 8),
        timeStampMs (createEmptyBlockProposal
          (snd (blockCommitsArrivedThroughCatchup env0 [block6, block7] schain0)) 8))
       = (1577836801, 0)
   \<and> tsLess (1577836801, 0) (unat (timeStamp block7), unat (timeStampMs block7))"
  by (simp add: eval_defs createEmptyBlockProposal_def emptyBlockTime_def
      ReceivedBlockProposal_def tsLess_def)

subsection \<open>Commit decisions\<close>

text \<open>
  C2, as stated: "for every call of \<open>blockCommitArrived\<close>, if B is at most
  \<open>lastCommittedBlockID\<close> the call returns with the state unchanged". The function checks
  the exit flag and asserts the time stamp to be below \<open>2 * MODERN_TIME\<close> before it looks
  at B: with block 3 already committed and a time stamp of \<open>2 * MODERN_TIME\<close> the call
  throws, and so it does when exit has been requested.
\<close>

theorem blockCommitArrived_stale_counterexample:
  "(3 :: u64) \<le> lastCommittedBlockID schain0
   \<and> \<not> returned (blockCommitArrived env0 3 1 (2 * MODERN_TIME env0) 0 (Some ''tsig'') schain0)
   \<and> \<not> returned (blockCommitArrived env0 3 1 1577836801 0 (Some ''tsig'')
                    (schain0\<lparr> exitRequested := True \<rparr>))"
  by (simp add: returned_def blockCommitArrived_def proc_simps schain0_def env0_def)

text \<open>
  C2, amended. A call made while exit is not requested, with a time stamp below
  \<open>2 * MODERN_TIME\<close>: if B is at most \<open>lastCommittedBlockID\<close> it returns with the whole
  driver state unchanged; otherwise it proceeds only when B is \<open>lastCommittedBlockID + 1\<close>
  or \<open>lastCommittedBlockID\<close> is 0, and any other B fails the assertion with the state
  unchanged. A call made after exit was requested, or with a time stamp that is not below
  \<open>2 * MODERN_TIME\<close>, throws before B is looked at, with the state unchanged. In every
  case, a call that changes the state had B above \<open>lastCommittedBlockID\<close> and met the
  precondition.
\<close>

theorem blockCommitArrived_guards:
  "(\<not> exitRequested s \<and> ts < 2 * MODERN_TIME E \<longrightarrow>
      (B \<le> lastCommittedBlockID s \<longrightarrow>
         blockCommitArrived E B idx ts tsMs sig s = (Inr (), s))
    \<and> (\<not> B \<le> lastCommittedBlockID s
         \<and> \<not> (B = lastCommittedBlockID s + 1 \<or> lastCommittedBlockID s = 0) \<longrightarrow>
         blockCommitArrived E B idx ts tsMs sig s = (Inl FatalError, s)))
   \<and> (exitRequested s \<longrightarrow>
        blockCommitArrived E B idx ts tsMs sig s = (Inl ExitRequestedException, s))
   \<and> (\<not> exitRequested s \<and> \<not> ts < 2 * MODERN_TIME E \<longrightarrow>
        blockCommitArrived E B idx ts tsMs sig s = (Inl FatalError, s))
   \<and> (snd (blockCommitArrived E B idx ts tsMs sig s) \<noteq> s \<longrightarrow>
        \<not> B \<le> lastCommittedBlockID s
        \<and> (B = lastCommittedBlockID s + 1 \<or> lastCommittedBlockID s = 0))"
proof -
  let ?run = "blockCommitArrived E B idx ts tsMs sig s"
  have ex: "exitRequested s \<longrightarrow> ?run = (Inl ExitRequestedException, s)"
    by (simp add: blockCommitArrived_exit)
  have bt: "\<not> exitRequested s \<and> \<not> ts < 2 * MODERN_TIME E \<longrightarrow> ?run = (Inl FatalError, s)"
    by (simp add: blockCommitArrived_badTime)
  have ig: "\<not> exitRequested s \<and> ts < 2 * MODERN_TIME E \<and> B \<le> lastCommittedBlockID s \<longrightarrow>
      ?run = (Inr (), s)"
    by (simp add: blockCommitArrived_ignored)
  have vi: "\<not> exitRequested s \<and> ts < 2 * MODERN_TIME E \<and> \<not> B \<le> lastCommittedBlockID s
      \<and> \<not> (B = lastCommittedBlockID s + 1 \<or> lastCommittedBlockID s = 0) \<longrightarrow>
      ?run = (Inl FatalError, s)"
    using blockCommitArrived_violation [of s ts E B idx tsMs sig] by blast
  have same: "\<not> (\<not> B \<le> lastCommittedBlockID s
        \<and> (B = lastCommittedBlockID s + 1 \<or> lastCommittedBlockID s = 0)) \<longrightarrow> snd ?run = s"
    using ex bt ig vi
    by (cases "exitRequested s"; cases "ts < 2 * MODERN_TIME E";
        cases "B \<le> lastCommittedBlockID s") auto
  show ?thesis using ex bt ig vi same by blast
qed

theorem blockCommitArrived_guards_witness:
  "blockCommitArrived env0 3 1 1577836801 0 (Some ''tsig'') schain0 = (Inr (), schain0)
   \<and> blockCommitArrived env0 9 1 1577836801 0 (Some ''tsig'') schain0 = (Inl FatalError, schain0)
   \<and> blockCommitArrived env0 3 1 (2 * MODERN_TIME env0) 0 (Some ''tsig'') schain0
        = (Inl FatalError, schain0)
   \<and> snd (blockCommitArrived env0 6 1 1577836801 250 (Some ''tsig'') schain1) \<noteq> schain1
   \<and> (6 :: u64) = lastCommittedBlockID schain1 + 1"
proof -
  have f: "\<not> exitRequested schain0" "lastCommittedBlockID schain0 = 5"
    "MODERN_TIME env0 = 1547640182" "lastCommittedBlockID schain1 = 5"
    by (simp_all add: schain0_def schain1_def env0_def)
  have ch: "lastCommittedBlockID
      (snd (blockCommitArrived env0 6 1 1577836801 250 (Some ''tsig'') schain1)) = 6"
    by (simp add: eval_defs)
  have ne: "snd (blockCommitArrived env0 6 1 1577836801 250 (Some ''tsig'') schain1) \<noteq> schain1"
    using ch f by auto
  show ?thesis
    using blockCommitArrived_guards [of schain0 1577836801 env0 3 1 0 "Some ''tsig''"]
      blockCommitArrived_guards [of schain0 1577836801 env0 9 1 0 "Some ''tsig''"]
      blockCommitArrived_guards [of schain0 "2 * MODERN_TIME env0" env0 3 1 0 "Some ''tsig''"]
      blockCommitArrived_guards [of schain1 1577836801 env0 6 1 250 "Some ''tsig''"]
      ne f
    by simp
qed

subsection \<open>Bootstrap\<close>

lemma bootstrap_divergence:
  "\<not> exitRequested s \<Longrightarrow> blockDBLastCommitted s \<noteq> lastID + 1 \<Longrightarrow>
   blockDBLastCommitted s < lastID \<or> blockDBLastCommitted s > lastID + 1 \<Longrightarrow>
     bootstrap E lastID ts s = (Inl InvalidStateException, s)"
  by (auto simp add: bootstrap_def bootstrapStep1_def proc_simps Let_def)

lemma bootstrapStep1_exit:
  "exitRequested s \<Longrightarrow> bootstrap E lastID ts s = (Inl ExitRequestedException, s)"
  by (auto simp add: bootstrap_def bootstrapStep1_def proc_simps Let_def)

lemma bootstrapStep1_snapshot:
  "\<not> exitRequested s \<Longrightarrow> blockDBLastCommitted s = lastID + 1 \<Longrightarrow>
   blockDB s (lastID + 1) = Some (Stored block) \<Longrightarrow>
   pushBlockToExtFace E block s = (Inr (), s1) \<Longrightarrow>
     bootstrapStep1 E lastID s = (Inr (lastID + 1), s1)"
  by (simp add: bootstrapStep1_def proc_simps Let_def)

lemma bootstrapStep1_unreadable:
  "\<not> exitRequested s \<Longrightarrow> blockDBLastCommitted s = lastID + 1 \<Longrightarrow>
   blockDB s (lastID + 1) = None \<or> blockDB s (lastID + 1) = Some Corrupt \<Longrightarrow>
     bootstrapStep1 E lastID s = (Inr lastID, s)"
  by (auto simp add: bootstrapStep1_def proc_simps Let_def)

lemma keeps_proposeNextBlock_host:
  "keeps (\<lambda>s. (createdBlocks s, blockDB s)) (proposeNextBlock E a b)"
  using keeps_proposeNextBlock [of E a b] by (simp add: keeps_def committed_def)

lemma keeps_bootstrapStep2:
  "keeps (\<lambda>s. (createdBlocks s, blockDB s)) (bootstrapStep2 E startID ts)"
  unfolding bootstrapStep2_def
  by (intro keeps_intros keeps_modify keeps_proposeNextBlock_host) simp_all

lemma step2Tail_effect:
  assumes run: "step2Tail E startID s = (r, s')"
  shows "lastCommittedBlockID s' = lastCommittedBlockID s
       \<and> (proposingLog s' = proposingLog s
          \<or> proposingLog s' = proposingLog s @ [lastCommittedBlockID s + 1])"
proof -
  let ?pn = "proposeNextBlock E (lastCommittedBlockTimeStamp s)
              (ucast (lastCommittedBlockTimeStampMs s))"
  obtain r1 s1 where pn: "?pn s = (r1, s1)" by (cases "?pn s")
  have l1: "lastCommittedBlockID s1 = lastCommittedBlockID s"
    using keepsD [OF keeps_proposeNextBlock pn] by (simp add: committed_def)
  have l2: "proposingLog s1 = proposingLog s
          \<or> proposingLog s1 = proposingLog s @ [lastCommittedBlockID s + 1]"
    using proposeNextBlock_log [OF pn] by simp
  have "s' = s \<or> s' = s1 \<or> s' = s1\<lparr> rebroadcast := rebroadcast s1 @ outgoingMsgDB s1 (startID + 1) \<rparr>"
    using run pn
    by (cases r1) (auto simp add: step2Tail_def proc_simps split: if_splits option.splits)
  then show ?thesis using l1 l2 by auto
qed

lemma bind_assoc: "bind (bind m f) g = bind m (\<lambda>x. bind (f x) g)"
  by (rule ext) (simp add: bind_def split: prod.splits sum.splits)

lemma bind_ret_right: "bind m ret = m"
  by (rule ext) (simp add: bind_def ret_def split: prod.splits sum.splits)

lemma steps_append: "steps (xs @ ys) = andThen (steps xs) (steps ys)"
proof (induction xs)
  case Nil
  show ?case by (rule ext) (simp add: andThen_def bind_def ret_def)
next
  case (Cons a xs)
  then show ?case by (simp add: andThen_def bind_assoc)
qed

lemma bootstrapStep2_split:
  "bootstrapStep2 E startID ts =
     catchAll
       (andThen
          (steps [
             withState (\<lambda>s. ASSERT (\<not> bootStrapped s)),
             modify (\<lambda>s. s\<lparr> bootStrapped := True, bootstrapBlockID := startID \<rparr>),
             ASSERT (ts < 2 * MODERN_TIME E),
             modify (\<lambda>s. s\<lparr> lastCommittedBlockID := startID,
                           lastCommitTime := clock s,
                           lastCommittedBlockTimeStamp := ts,
                           lastCommittedBlockTimeStampMs := 0 \<rparr>)])
          (step2Tail E startID))
       (ret ())"
  by (simp only: bootstrapStep2_def step2Tail_def steps_append [symmetric] append.simps)


text \<open>Procedures that cannot end the process.\<close>

named_theorems safe_intros

lemma safe_ret [safe_intros]: "safe (ret x)"
  by (simp add: safe_def ret_def)

lemma safe_throw: "e \<noteq> Segfault \<Longrightarrow> safe (throw e)"
  by (simp add: safe_def throw_def)

lemma safe_getState [safe_intros]: "safe getState"
  by (simp add: safe_def getState_def)

lemma safe_modify [safe_intros]: "safe (modify h)"
  by (simp add: safe_def modify_def)

lemma safe_bind [safe_intros]: "safe m \<Longrightarrow> (\<And>x. safe (f x)) \<Longrightarrow> safe (bind m f)"
  by (auto simp add: safe_def bind_def split: prod.splits sum.splits) (metis fst_conv)

lemma safe_andThen [safe_intros]: "safe m \<Longrightarrow> safe n \<Longrightarrow> safe (andThen m n)"
  by (simp add: andThen_def safe_bind)

lemma safe_withState [safe_intros]: "(\<And>s. safe (g s)) \<Longrightarrow> safe (withState g)"
  by (simp add: safe_def withState_def bind_def getState_def)

lemma safe_steps_Nil [safe_intros]: "safe (steps [])"
  by (simp add: safe_ret)

lemma safe_steps_Cons [safe_intros]: "safe a \<Longrightarrow> safe (steps as) \<Longrightarrow> safe (steps (a # as))"
  by (simp add: safe_andThen)

lemma safe_nested [safe_intros]: "safe m \<Longrightarrow> safe (nested InvalidStateException m)"
  by (auto simp add: safe_def nested_def split: prod.splits sum.splits) (metis fst_conv)

lemma safe_lift: "r \<noteq> Inl Segfault \<Longrightarrow> safe (lift r)"
  by (cases r) (simp_all add: safe_def lift_def ret_def throw_def)

lemma safe_ASSERT [safe_intros]: "safe (ASSERT c)"
  by (simp add: ASSERT_def safe_ret safe_throw)

lemma safe_CHECK_STATE [safe_intros]: "safe (CHECK_STATE c)"
  by (simp add: CHECK_STATE_def safe_ret safe_throw)

lemma safe_CHECK_ARGUMENT [safe_intros]: "safe (CHECK_ARGUMENT c)"
  by (simp add: CHECK_ARGUMENT_def safe_ret safe_throw)

lemma safe_checkForExit [safe_intros]: "safe checkForExit"
  unfolding checkForExit_def by (intro safe_intros) (simp add: safe_ret safe_throw)

lemma safe_if [safe_intros]: "safe a \<Longrightarrow> safe b \<Longrightarrow> safe (if c then a else b)"
  by simp

lemma safe_case_option [safe_intros]:
  "safe a \<Longrightarrow> (\<And>x. safe (g x)) \<Longrightarrow> safe (case v of None \<Rightarrow> a | Some x \<Rightarrow> g x)"
  by (cases v) simp_all

lemma safe_postMessage [safe_intros]: "safe (postMessage m)"
  unfolding postMessage_def by (intro safe_intros)

lemma safe_startConsensus [safe_intros]: "safe (startConsensus b v)"
  unfolding startConsensus_def by (intro safe_intros)

lemma safe_addDAProof [safe_intros]: "safe (addDAProof d)"
  by (simp add: safe_def addDAProof_def Let_def)

lemma safe_daProofArrived [safe_intros]: "safe (daProofArrived d)"
  unfolding daProofArrived_def by (intro safe_intros)

lemma safe_proposedBlockArrived [safe_intros]: "safe (proposedBlockArrived p)"
  unfolding proposedBlockArrived_def by (intro safe_intros)

lemma safe_daProofSigShareArrived:
  "(\<And>u sh q. addAndMergeSigShareAndVerifySig E u sh q \<noteq> Inl Segfault) \<Longrightarrow>
     safe (daProofSigShareArrived E sh p)"
  unfolding daProofSigShareArrived_def by (intro safe_intros safe_lift) simp

lemma safeD: "safe m \<Longrightarrow> m s = (r, s') \<Longrightarrow> r \<noteq> Inl Segfault"
  by (auto simp add: safe_def) (metis fst_conv)

text \<open>What is queued for gossip stays queued.\<close>

lemma keeps_queue_postMessage: "keeps proposalQueue (postMessage m)"
  unfolding postMessage_def by (intro keeps_intros keeps_modify) simp

lemma keeps_queue_startConsensus: "keeps proposalQueue (startConsensus b v)"
  unfolding startConsensus_def by (intro keeps_intros keeps_queue_postMessage)

lemma keeps_queue_addDAProof: "keeps proposalQueue (addDAProof d)"
  by (simp add: keeps_def addDAProof_def Let_def)

lemma keeps_queue_daProofArrived: "keeps proposalQueue (daProofArrived d)"
  unfolding daProofArrived_def
  by (intro keeps_intros keeps_modify keeps_queue_startConsensus keeps_queue_addDAProof)
     (simp add: saveVector_def)

lemma keeps_queue_proposedBlockArrived: "keeps proposalQueue (proposedBlockArrived p)"
  unfolding proposedBlockArrived_def
  by (intro keeps_intros keeps_modify) (simp add: addBlockProposal_def)

lemma daProofSigShareArrived_queue:
  assumes run: "daProofSigShareArrived E sh p s = (r, s')"
  shows "set (proposalQueue s) \<subseteq> set (proposalQueue s')"
proof -
  let ?add = "addAndMergeSigShareAndVerifySig E s (the sh) p"
  show ?thesis
  proof (cases "exitRequested s \<or> sh = None")
    case True
    then have "s' = s" using run
      by (cases "exitRequested s") (auto simp add: daProofSigShareArrived_def proc_simps)
    then show ?thesis by simp
  next
    case False
    show ?thesis
    proof (cases ?add)
      case (Inl e)
      then have "s' = s" using run False
        by (auto simp add: daProofSigShareArrived_def proc_simps)
      then show ?thesis by simp
    next
      case (Inr found)
      show ?thesis
      proof (cases found)
        case None
        then have "s' = s" using run False Inr
          by (auto simp add: daProofSigShareArrived_def proc_simps)
        then show ?thesis by simp
      next
        case (Some d)
        obtain r1 s1 where da: "daProofArrived d s = (r1, s1)" by (cases "daProofArrived d s")
        have q: "proposalQueue s1 = proposalQueue s"
          using keepsD [OF keeps_queue_daProofArrived da] .
        have "s' = s1 \<or> s' = enqueueItem (PushDAProof d) s1"
          using run False Inr Some da
          by (cases r1) (auto simp add: daProofSigShareArrived_def proc_simps)
        then show ?thesis using q by (auto simp add: enqueueItem_def)
      qed
    qed
  qed
qed


text \<open>
  A driver that has recorded a proposal of its own for the next block, or can build one,
  proposes it: the proposal is announced and queued for gossip, whatever becomes of its
  DA share afterwards.
\<close>

lemma proposeNextBlock_proposes:
  assumes noexit: "\<not> exitRequested s"
    and own: "if proposalHashDB s (lastCommittedBlockID s + 1, schainIndex s) = None
              then buildBlockProposal E s (lastCommittedBlockID s + 1) a b = Inr p
              else blockProposalDB s (lastCommittedBlockID s + 1, schainIndex s) = Some p"
    and ok: "proposerIndex p = schainIndex s" "signature p \<noteq> None"
    and nocrash: "\<And>u sh q. addAndMergeSigShareAndVerifySig E u sh q \<noteq> Inl Segfault"
    and run: "proposeNextBlock E a b s = (r, s')"
  shows "r \<noteq> Inl Segfault
       \<and> proposingLog s' = proposingLog s @ [lastCommittedBlockID s + 1]
       \<and> PushProposal p \<in> set (proposalQueue s')"
proof -
  let ?bid = "lastCommittedBlockID s + 1"
  let ?src = "if haveProposal s ?bid (schainIndex s)
                then (case blockProposalDB s (?bid, schainIndex s) of
                        None \<Rightarrow> throw Segfault
                      | Some p \<Rightarrow> ret p)
                else lift (buildBlockProposal E s ?bid a b)"
  have src: "?src s = (Inr p, s)"
    using own by (auto simp add: haveProposal_def proc_simps split: if_splits)
  obtain r1 s1 where pa: "proposedBlockArrived p s = (r1, s1)"
    by (cases "proposedBlockArrived p s")
  have r1: "r1 = Inr ()"
    using pa ok by (auto simp add: proposedBlockArrived_def proc_simps split: if_splits)
  have l1: "stable s1 = stable s" using keepsD [OF keeps_proposedBlockArrived pa] .
  define s2 where "s2 = enqueueItem (PushProposal p)
      (checkAndSaveHash ?bid (schainIndex s) (hash p)
        (s1\<lparr> proposingLog := proposingLog s1 @ [?bid] \<rparr>))"
  have l2: "proposingLog s2 = proposingLog s @ [?bid]"
    using l1 by (simp add: s2_def enqueueItem_def checkAndSaveHash_def stable_def)
  have q2: "PushProposal p \<in> set (proposalQueue s2)"
    by (simp add: s2_def enqueueItem_def checkAndSaveHash_def)
  obtain r3 s3 where da: "daProofSigShareArrived E (signDAProofSigShare E p) p s2 = (r3, s3)"
    by (cases "daProofSigShareArrived E (signDAProofSigShare E p) p s2")
  have l3: "proposingLog s3 = proposingLog s @ [?bid]"
    using keepsD [OF keeps_daProofSigShareArrived da] l2 by (simp add: stable_def)
  have q3: "PushProposal p \<in> set (proposalQueue s3)"
    using daProofSigShareArrived_queue [OF da] q2 by blast
  have r3: "r3 \<noteq> Inl Segfault"
    using safeD [OF safe_daProofSigShareArrived da] nocrash by blast
  have "proposeNextBlock E a b s =
      (case r3 of
         Inl e \<Rightarrow>
           (Inl (if e = ExitRequestedException \<or> e = Segfault then e
                 else InvalidStateException), s3)
       | Inr v \<Rightarrow> (Inr (), s3))"
    using noexit src ok pa r1 da
    by (simp add: proposeNextBlock_def proc_simps Let_def s2_def split: sum.splits)
  then show ?thesis using run l3 q3 r3 by (cases r3) auto
qed


lemma catchAll_ret:
  "catchAll m (ret ()) s = (r, s') \<Longrightarrow> r = Inr () \<or> r = Inl Segfault"
  by (auto simp add: catchAll_def ret_def split: prod.splits sum.splits if_splits)

lemma step2Tail_proposes:
  assumes noexit: "\<not> exitRequested s"
    and price: "lastCommittedBlockID s = 0 \<longrightarrow> calculatePrice E s [] 0 0 0 = None"
    and own: "if proposalHashDB s (lastCommittedBlockID s + 1, schainIndex s) = None
              then buildBlockProposal E s (lastCommittedBlockID s + 1)
                     (lastCommittedBlockTimeStamp s) (ucast (lastCommittedBlockTimeStampMs s))
                   = Inr p
              else blockProposalDB s (lastCommittedBlockID s + 1, schainIndex s) = Some p"
    and ok: "proposerIndex p = schainIndex s" "signature p \<noteq> None"
    and nocrash: "\<And>u sh q. addAndMergeSigShareAndVerifySig E u sh q \<noteq> Inl Segfault"
    and run: "step2Tail E startID s = (r, s')"
  shows "r \<noteq> Inl Segfault
       \<and> lastCommittedBlockID s' = lastCommittedBlockID s
       \<and> proposingLog s' = proposingLog s @ [lastCommittedBlockID s + 1]
       \<and> PushProposal p \<in> set (proposalQueue s')"
proof -
  let ?pn = "proposeNextBlock E (lastCommittedBlockTimeStamp s)
              (ucast (lastCommittedBlockTimeStampMs s))"
  obtain r1 s1 where pn: "?pn s = (r1, s1)" by (cases "?pn s")
  note e = proposeNextBlock_proposes [OF noexit own ok nocrash pn]
  have l1: "lastCommittedBlockID s1 = lastCommittedBlockID s"
    using keepsD [OF keeps_proposeNextBlock pn] by (simp add: committed_def)
  let ?s2 = "s1\<lparr> rebroadcast := rebroadcast s1 @ outgoingMsgDB s1 (startID + 1) \<rparr>"
  have tail: "step2Tail E startID s =
      (case r1 of
         Inl e \<Rightarrow> (Inl e, s1)
       | Inr u \<Rightarrow> (Inr (), case proposalVectorDB s1 (startID + 1) of
                              None \<Rightarrow> s1 | Some v \<Rightarrow> ?s2))"
  proof (cases "lastCommittedBlockID s = 0")
    case True
    with price have cp: "calculatePrice E s [] 0 0 0 = None" by simp
    show ?thesis using True pn
      by (simp add: step2Tail_def proc_simps cp split: sum.splits option.splits)
  next
    case False
    show ?thesis using False pn
      by (simp add: step2Tail_def proc_simps split: sum.splits option.splits)
  qed
  have "(r = r1 \<and> s' = s1) \<or> (r = Inr () \<and> s' = ?s2)"
    using run unfolding tail by (cases r1; cases "proposalVectorDB s1 (startID + 1)") auto
  moreover have "lastCommittedBlockID ?s2 = lastCommittedBlockID s1"
    "proposingLog ?s2 = proposingLog s1" "proposalQueue ?s2 = proposalQueue s1"
    by simp_all
  ultimately show ?thesis using e l1 by (elim disjE conjE) simp_all
qed


lemma bootstrapStep2_effect:
  assumes run: "bootstrapStep2 E startID ts s = (r, s')"
  shows "(r = Inr () \<or> r = Inl Segfault)
       \<and> createdBlocks s' = createdBlocks s
       \<and> blockDB s' = blockDB s
       \<and> (\<not> bootStrapped s \<and> ts < 2 * MODERN_TIME E \<longrightarrow>
            lastCommittedBlockID s' = startID
          \<and> (proposingLog s' = proposingLog s \<or> proposingLog s' = proposingLog s @ [startID + 1]))"
proof -
  have k: "createdBlocks s' = createdBlocks s \<and> blockDB s' = blockDB s"
    using keepsD [OF keeps_bootstrapStep2 run] by simp
  have r: "r = Inr () \<or> r = Inl Segfault"
    using run unfolding bootstrapStep2_def by (rule catchAll_ret)
  have main: "lastCommittedBlockID s' = startID
          \<and> (proposingLog s' = proposingLog s \<or> proposingLog s' = proposingLog s @ [startID + 1])"
    if pre: "\<not> bootStrapped s" "ts < 2 * MODERN_TIME E"
  proof -
    define s2 where "s2 = s\<lparr> bootStrapped := True, bootstrapBlockID := startID,
                        lastCommittedBlockID := startID,
                        lastCommitTime := clock s,
                        lastCommittedBlockTimeStamp := ts,
                        lastCommittedBlockTimeStampMs := 0 \<rparr>"
    obtain r3 s3 where tl: "step2Tail E startID s2 = (r3, s3)"
      by (cases "step2Tail E startID s2")
    have "snd (bootstrapStep2 E startID ts s) = s3"
      using pre tl unfolding bootstrapStep2_split
      by (simp add: proc_simps s2_def split: sum.splits)
    then have "s' = s3" using run by simp
    then show ?thesis using step2Tail_effect [OF tl] by (simp add: s2_def)
  qed
  show ?thesis using k r main by blast
qed


lemma bootstrapStep2_proposes:
  assumes pre: "\<not> bootStrapped s" "ts < 2 * MODERN_TIME E" "\<not> exitRequested s"
    and price: "startID = 0 \<longrightarrow> (\<forall>t. calculatePrice E t [] 0 0 0 = None)"
    and own: "if proposalHashDB s (startID + 1, schainIndex s) = None
              then \<forall>t. buildBlockProposal E t (startID + 1) ts 0 = Inr p
              else blockProposalDB s (startID + 1, schainIndex s) = Some p"
    and ok: "proposerIndex p = schainIndex s" "signature p \<noteq> None"
    and nocrash: "\<And>u sh q. addAndMergeSigShareAndVerifySig E u sh q \<noteq> Inl Segfault"
    and run: "bootstrapStep2 E startID ts s = (r, s')"
  shows "r = Inr ()
       \<and> proposingLog s' = proposingLog s @ [startID + 1]
       \<and> PushProposal p \<in> set (proposalQueue s')"
proof -
  define s2 where "s2 = s\<lparr> bootStrapped := True, bootstrapBlockID := startID,
                      lastCommittedBlockID := startID,
                      lastCommitTime := clock s,
                      lastCommittedBlockTimeStamp := ts,
                      lastCommittedBlockTimeStampMs := 0 \<rparr>"
  obtain r3 s3 where tl: "step2Tail E startID s2 = (r3, s3)"
    by (cases "step2Tail E startID s2")
  have f: "\<not> exitRequested s2" "lastCommittedBlockID s2 = startID"
    "proposingLog s2 = proposingLog s" "proposerIndex p = schainIndex s2"
    using pre ok by (simp_all add: s2_def)
  have price2: "lastCommittedBlockID s2 = 0 \<longrightarrow> calculatePrice E s2 [] 0 0 0 = None"
    using price f by simp
  have own2: "if proposalHashDB s2 (lastCommittedBlockID s2 + 1, schainIndex s2) = None
              then buildBlockProposal E s2 (lastCommittedBlockID s2 + 1)
                     (lastCommittedBlockTimeStamp s2) (ucast (lastCommittedBlockTimeStampMs s2))
                   = Inr p
              else blockProposalDB s2 (lastCommittedBlockID s2 + 1, schainIndex s2) = Some p"
    using own by (simp add: s2_def)
  note e = step2Tail_proposes [OF f(1) price2 own2 f(4) ok(2) nocrash tl]
  have "bootstrapStep2 E startID ts s =
          (if r3 = Inl Segfault then (r3, s3) else (Inr (), s3))"
    using pre tl unfolding bootstrapStep2_split
    by (cases r3) (simp_all add: proc_simps s2_def)
  then have "r = Inr ()" "s' = s3" using run e by auto
  then show ?thesis using e f by simp
qed


text \<open>Bootstrap as a whole, for a block DB one block ahead of the host.\<close>

lemma pushBlockToExtFace_frame:
  "pushBlockToExtFace E b s = (Inr (), s1) \<Longrightarrow> \<not> exitRequested s \<Longrightarrow>
     \<not> exitRequested s1 \<and> bootStrapped s1 = bootStrapped s
     \<and> proposingLog s1 = proposingLog s \<and> proposalHashDB s1 = proposalHashDB s
     \<and> blockProposalDB s1 = blockProposalDB s \<and> schainIndex s1 = schainIndex s"
  by (auto simp add: pushBlockToExtFace_def proc_simps createBlock_def
      split: option.splits sum.splits if_splits)

lemma bootstrap_snapshot:
  assumes noexit: "\<not> exitRequested s"
    and head: "blockDBLastCommitted s = lastID + 1"
    and blk: "blockDB s (lastID + 1) = Some (Stored block)"
    and push: "pushBlockToExtFace E block s = (Inr (), s1)"
    and run: "bootstrap E lastID ts s = (r, s')"
  shows "(extFace s \<longrightarrow>
             (\<exists>price. createdBlocks s' = createdBlocks s @ [createBlockArgs block price]))
       \<and> (\<not> extFace s \<longrightarrow> createdBlocks s' = createdBlocks s)
       \<and> (\<not> bootStrapped s \<and> ts < 2 * MODERN_TIME E \<longrightarrow>
            lastCommittedBlockID s' = lastID + 1
          \<and> (proposingLog s' = proposingLog s \<or> proposingLog s' = proposingLog s @ [lastID + 2]))"
proof -
  have st1: "bootstrapStep1 E lastID s = (Inr (lastID + 1), s1)"
    using noexit head blk push by (rule bootstrapStep1_snapshot)
  then have st2: "bootstrapStep2 E (lastID + 1) ts s1 = (r, s')"
    using run by (simp add: bootstrap_def bind_def)
  note fr = pushBlockToExtFace_frame [OF push noexit]
  have "lastID + 1 + 1 = lastID + 2" by simp
  then show ?thesis
    using bootstrapStep2_effect [OF st2] pushBlockToExtFace_ok [OF push] fr by auto
qed

lemma bootstrap_snapshot_proposes:
  assumes noexit: "\<not> exitRequested s"
    and head: "blockDBLastCommitted s = lastID + 1"
    and blk: "blockDB s (lastID + 1) = Some (Stored block)"
    and push: "pushBlockToExtFace E block s = (Inr (), s1)"
    and pre: "\<not> bootStrapped s" "ts < 2 * MODERN_TIME E"
    and price: "lastID + 1 = 0 \<longrightarrow> (\<forall>t. calculatePrice E t [] 0 0 0 = None)"
    and own: "if proposalHashDB s (lastID + 2, schainIndex s) = None
              then \<forall>t. buildBlockProposal E t (lastID + 2) ts 0 = Inr p
              else blockProposalDB s (lastID + 2, schainIndex s) = Some p"
    and ok: "proposerIndex p = schainIndex s" "signature p \<noteq> None"
    and nocrash: "\<And>u sh q. addAndMergeSigShareAndVerifySig E u sh q \<noteq> Inl Segfault"
    and run: "bootstrap E lastID ts s = (r, s')"
  shows "r = Inr ()
       \<and> proposingLog s' = proposingLog s @ [lastID + 2]
       \<and> PushProposal p \<in> set (proposalQueue s')"
proof -
  have st1: "bootstrapStep1 E lastID s = (Inr (lastID + 1), s1)"
    using noexit head blk push by (rule bootstrapStep1_snapshot)
  then have st2: "bootstrapStep2 E (lastID + 1) ts s1 = (r, s')"
    using run by (simp add: bootstrap_def bind_def)
  note fr = pushBlockToExtFace_frame [OF push noexit]
  have two: "lastID + 1 + 1 = lastID + 2" by simp
  have pre1: "\<not> bootStrapped s1" "\<not> exitRequested s1" using fr pre by simp_all
  have own1: "if proposalHashDB s1 (lastID + 1 + 1, schainIndex s1) = None
              then \<forall>t. buildBlockProposal E t (lastID + 1 + 1) ts 0 = Inr p
              else blockProposalDB s1 (lastID + 1 + 1, schainIndex s1) = Some p"
    using own fr unfolding two by simp
  have ok1: "proposerIndex p = schainIndex s1" using ok fr by simp
  from bootstrapStep2_proposes [OF pre1(1) pre(2) pre1(2) price own1 ok1 ok(2) nocrash st2]
  show ?thesis using fr unfolding two by simp
qed

lemma bootstrap_unreadable:
  assumes noexit: "\<not> exitRequested s"
    and head: "blockDBLastCommitted s = lastID + 1"
    and blk: "blockDB s (lastID + 1) = None \<or> blockDB s (lastID + 1) = Some Corrupt"
    and run: "bootstrap E lastID ts s = (r, s')"
  shows "createdBlocks s' = createdBlocks s
       \<and> (\<not> bootStrapped s \<and> ts < 2 * MODERN_TIME E \<longrightarrow>
            lastCommittedBlockID s' = lastID
          \<and> (proposingLog s' = proposingLog s \<or> proposingLog s' = proposingLog s @ [lastID + 1]))"
proof -
  have st1: "bootstrapStep1 E lastID s = (Inr lastID, s)"
    using noexit head blk by (rule bootstrapStep1_unreadable)
  then have st2: "bootstrapStep2 E lastID ts s = (r, s')"
    using run by (simp add: bootstrap_def bind_def)
  show ?thesis
    using bootstrapStep2_effect [OF st2] by auto
qed

lemma bootstrap_unreadable_proposes:
  assumes noexit: "\<not> exitRequested s"
    and head: "blockDBLastCommitted s = lastID + 1"
    and blk: "blockDB s (lastID + 1) = None \<or> blockDB s (lastID + 1) = Some Corrupt"
    and pre: "\<not> bootStrapped s" "ts < 2 * MODERN_TIME E"
    and price: "lastID = 0 \<longrightarrow> (\<forall>t. calculatePrice E t [] 0 0 0 = None)"
    and own: "if proposalHashDB s (lastID + 1, schainIndex s) = None
              then \<forall>t. buildBlockProposal E t (lastID + 1) ts 0 = Inr p
              else blockProposalDB s (lastID + 1, schainIndex s) = Some p"
    and ok: "proposerIndex p = schainIndex s" "signature p \<noteq> None"
    and nocrash: "\<And>u sh q. addAndMergeSigShareAndVerifySig E u sh q \<noteq> Inl Segfault"
    and run: "bootstrap E lastID ts s = (r, s')"
  shows "r = Inr ()
       \<and> proposingLog s' = proposingLog s @ [lastID + 1]
       \<and> PushProposal p \<in> set (proposalQueue s')"
proof -
  have st1: "bootstrapStep1 E lastID s = (Inr lastID, s)"
    using noexit head blk by (rule bootstrapStep1_unreadable)
  then have st2: "bootstrapStep2 E lastID ts s = (r, s')"
    using run by (simp add: bootstrap_def bind_def)
  from bootstrapStep2_proposes [OF pre noexit price own ok nocrash st2]
  show ?thesis .
qed





subsection \<open>Routing inbound envelopes\<close>

lemma insertDeferred_keyed: "\<exists>l. (b, l @ [e]) \<in> set (insertDeferred b e q)"
proof (induction q)
  case Nil
  show ?case by (rule exI [of _ "[]"]) simp
next
  case (Cons kl q)
  obtain k l where kl: "kl = (k, l)" by (cases kl)
  from Cons obtain l' where "(b, l' @ [e]) \<in> set (insertDeferred b e q)" by auto
  then show ?case unfolding kl
    by (cases "b = k"; cases "b < k") (auto intro: exI [of _ "[]"])
qed

lemma postToSchain_ok:
  "\<not> exitRequested (sChain n) \<Longrightarrow> msgBlockID (fst me) \<noteq> 0 \<Longrightarrow>
     postToSchain me n =
       (Inr (), n\<lparr> sChain := (sChain n)\<lparr> messageQueue :=
            messageQueue (sChain n) @ [NetworkMessageEnvelope (fst me) (snd me)] \<rparr> \<rparr>)"
  by (simp add: postToSchain_def postMessage_def proc_simps)

text \<open>
  C6. An inbound network envelope m with block id Bm and round Rm, read by the network
  read loop (which runs while exit is not requested), with Bc = lastCommittedBlockID + 1
  and Rc the current round of the destination binary consensus instance: if Bm is at most
  catchupBlocks, m is discarded; else if Bm is above Bc, m is put into the deferred queue
  under the key Bm; else if Rm is above Rc + 1, or Rm is Rc + 1 and the instance has not
  decided, m is deferred under the key Bm; otherwise m is posted to the driver's message
  queue. Deferring puts m last in the entry of key Bm.
\<close>

theorem inbound_envelope_routing:
  assumes running: "\<not> exitRequested (sChain n)"
  shows "networkReadBody (Inr (Some m)) n =
     (Continue,
      let Bm = msgBlockID (fst m);
          Rm = msgRound (fst m);
          Bc = lastCommittedBlockID (sChain n) + 1;
          Rc = binRound (sChain n) (msgBlockID (fst m), msgBlockProposerIndex (fst m));
          decided = binDecided (sChain n) (msgBlockID (fst m), msgBlockProposerIndex (fst m));
          deferred = n\<lparr> deferredMessageQueue := insertDeferred Bm m (deferredMessageQueue n) \<rparr>
      in
      if Bm \<le> catchupBlocks n then n
      else if Bm > Bc then deferred
      else if Rm > Rc + 1 \<or> (Rm = Rc + 1 \<and> \<not> decided) then deferred
      else n\<lparr> sChain := (sChain n)\<lparr> messageQueue :=
               messageQueue (sChain n) @ [NetworkMessageEnvelope (fst m) (snd m)] \<rparr> \<rparr>)
   \<and> (\<exists>l. (msgBlockID (fst m), l @ [m])
           \<in> set (insertDeferred (msgBlockID (fst m)) m (deferredMessageQueue n)))"
proof -
  have nz: "\<not> msgBlockID (fst m) \<le> catchupBlocks n \<Longrightarrow> msgBlockID (fst m) \<noteq> 0"
    by auto
  show ?thesis
    using running nz postToSchain_ok [of n m]
    by (auto simp add: networkReadBody_def postOrDefer_def Let_def addToDeferredMessageQueue_def
        createDestinationProtocolKey_def insertDeferred_keyed)
qed

theorem inbound_envelope_routing_witness:
  "\<not> exitRequested (sChain net0)
   \<and> networkReadBody (Inr (Some (netmsg6, nodes4 ! 1))) net0 =
       (Continue, net0\<lparr> sChain := (sChain net0)\<lparr> messageQueue :=
            [NetworkMessageEnvelope netmsg6 (nodes4 ! 1)] \<rparr> \<rparr>)
   \<and> networkReadBody (Inr (Some (netmsg6\<lparr> msgBlockID := 9 \<rparr>, nodes4 ! 1))) net0 =
       (Continue, net0\<lparr> deferredMessageQueue :=
            [(9, [(netmsg6\<lparr> msgBlockID := 9 \<rparr>, nodes4 ! 1)])] \<rparr>)
   \<and> networkReadBody (Inr (Some (netmsg6\<lparr> msgRound := 2 \<rparr>, nodes4 ! 1))) net0 =
       (Continue, net0\<lparr> deferredMessageQueue :=
            [(6, [(netmsg6\<lparr> msgRound := 2 \<rparr>, nodes4 ! 1)])] \<rparr>)
   \<and> networkReadBody (Inr (Some (netmsg6\<lparr> msgBlockID := 1 \<rparr>, nodes4 ! 1))) net0 =
       (Continue, net0)"
proof -
  have f: "\<not> exitRequested (sChain net0)" "catchupBlocks net0 = 2"
    "lastCommittedBlockID (sChain net0) = 5" "deferredMessageQueue net0 = []"
    "messageQueue (sChain net0) = []" "binRound (sChain net0) = (\<lambda>k. 0)"
    "binDecided (sChain net0) = (\<lambda>k. False)"
    by (simp_all add: net0_def newTransportNetwork_def schain0_def)
  have g: "msgBlockID netmsg6 = 6" "msgRound netmsg6 = 0"
    by (simp_all add: netmsg6_def)
  show ?thesis
    using inbound_envelope_routing [OF f(1), of "(netmsg6, nodes4 ! 1)"]
      inbound_envelope_routing [OF f(1), of "(netmsg6\<lparr> msgBlockID := 9 \<rparr>, nodes4 ! 1)"]
      inbound_envelope_routing [OF f(1), of "(netmsg6\<lparr> msgRound := 2 \<rparr>, nodes4 ! 1)"]
      inbound_envelope_routing [OF f(1), of "(netmsg6\<lparr> msgBlockID := 1 \<rparr>, nodes4 ! 1)"]
    by (simp add: f g Let_def)
qed


subsection \<open>Delayed sends\<close>

lemma delayedPush_eq:
  "delayedPush x q = (if length q < 256 then q @ [x] else tl q @ [x])"
  by (cases q) (auto simp add: delayedPush_def Let_def)

lemma delayedPush_bound: "length q \<le> 256 \<Longrightarrow> length (delayedPush x q) \<le> 256"
  by (simp add: delayedPush_eq)

lemma list_all_update:
  "list_all P ds \<Longrightarrow> P v \<Longrightarrow> list_all P (ds[i := v])"
  by (induction ds arbitrary: i) (auto split: nat.splits)

text \<open>The first loop of a broadcast: who ends up in \<open>sent\<close>, and who does not.\<close>

lemma sendPass_mono: "set (fst st) \<subseteq> set (fst (sendPass send me m nis st))"
proof (induction nis arbitrary: st)
  case Nil
  then show ?case by simp
next
  case (Cons ni nis)
  show ?case
    using Cons.IH [of "(fst st @ [nodeSchainIndex ni - 1], Suc (snd st))"]
      Cons.IH [of "(fst st, Suc (snd st))"] Cons.IH [of st]
    by (auto simp add: Let_def)
qed

lemma sendPass_sent:
  "i \<in> set (fst (sendPass send me m nis st)) \<Longrightarrow>
     i \<in> set (fst st) \<or>
     (\<exists>ni\<in>set nis. \<exists>k. nodeSchainIndex ni - 1 = i \<and> send k ni (m\<lparr> msgDstNodeID := nodeID ni \<rparr>))"
proof (induction nis arbitrary: st)
  case Nil
  then show ?case by simp
next
  case (Cons ni nis)
  let ?go = "nodeSchainIndex ni - 1 \<noteq> me - 1 \<and> nodeSchainIndex ni - 1 \<notin> set (fst st)"
  let ?ok = "send (snd st) ni (m\<lparr> msgDstNodeID := nodeID ni \<rparr>)"
  consider (hit) "?go" "?ok" | (miss) "?go" "\<not> ?ok" | (skip) "\<not> ?go" by blast
  then show ?case
  proof cases
    case hit
    then have "i \<in> set (fst (sendPass send me m nis (fst st @ [nodeSchainIndex ni - 1], Suc (snd st))))"
      using Cons.prems by (simp add: Let_def)
    from Cons.IH [OF this] hit show ?thesis by auto
  next
    case miss
    then have "i \<in> set (fst (sendPass send me m nis (fst st, Suc (snd st))))"
      using Cons.prems by (simp add: Let_def)
    from Cons.IH [OF this] show ?thesis by auto
  next
    case skip
    then have "i \<in> set (fst (sendPass send me m nis st))"
      using Cons.prems by (auto simp add: Let_def)
    from Cons.IH [OF this] show ?thesis by auto
  qed
qed

lemma sendPass_unsent:
  "ni \<in> set nis \<Longrightarrow> nodeSchainIndex ni - 1 \<noteq> me - 1 \<Longrightarrow>
   nodeSchainIndex ni - 1 \<notin> set (fst (sendPass send me m nis st)) \<Longrightarrow>
     \<exists>k. \<not> send k ni (m\<lparr> msgDstNodeID := nodeID ni \<rparr>)"
proof (induction nis arbitrary: st)
  case Nil
  then show ?case by simp
next
  case (Cons n0 nis)
  let ?go = "nodeSchainIndex n0 - 1 \<noteq> me - 1 \<and> nodeSchainIndex n0 - 1 \<notin> set (fst st)"
  let ?ok = "send (snd st) n0 (m\<lparr> msgDstNodeID := nodeID n0 \<rparr>)"
  let ?hit = "(fst st @ [nodeSchainIndex n0 - 1], Suc (snd st))"
  let ?miss = "(fst st, Suc (snd st))"
  show ?case
  proof (cases "ni = n0")
    case True
    have out: "nodeSchainIndex n0 - 1 \<notin> set (fst st)"
      using Cons.prems(3) sendPass_mono [of st send me m "n0 # nis"] True by auto
    have "\<not> ?ok"
    proof
      assume ok: ?ok
      then have "sendPass send me m (n0 # nis) st = sendPass send me m nis ?hit"
        using out Cons.prems(2) True by (simp add: Let_def)
      moreover have "nodeSchainIndex n0 - 1 \<in> set (fst (sendPass send me m nis ?hit))"
        using sendPass_mono [of ?hit send me m nis] by auto
      ultimately show False using Cons.prems(3) True by simp
    qed
    then show ?thesis using True by blast
  next
    case False
    then have mem: "ni \<in> set nis" using Cons.prems(1) by simp
    consider (hit) "?go" "?ok" | (miss) "?go" "\<not> ?ok" | (skip) "\<not> ?go" by blast
    then show ?thesis
    proof cases
      case hit
      then have "nodeSchainIndex ni - 1 \<notin> set (fst (sendPass send me m nis ?hit))"
        using Cons.prems(3) by (simp add: Let_def)
      from Cons.IH [OF mem Cons.prems(2) this] show ?thesis .
    next
      case miss
      then have "nodeSchainIndex ni - 1 \<notin> set (fst (sendPass send me m nis ?miss))"
        using Cons.prems(3) by (simp add: Let_def)
      from Cons.IH [OF mem Cons.prems(2) this] show ?thesis .
    next
      case skip
      then have "nodeSchainIndex ni - 1 \<notin> set (fst (sendPass send me m nis st))"
        using Cons.prems(3) by (auto simp add: Let_def)
      from Cons.IH [OF mem Cons.prems(2) this] show ?thesis .
    qed
  qed
qed

lemma sendPass_all_fail:
  "(\<And>k ni m'. \<not> send k ni m') \<Longrightarrow> fst (sendPass send me m nis st) = fst st"
  by (induction nis arbitrary: st) (simp_all add: Let_def)

text \<open>The \<open>while\<close> loop: what holds of \<open>sent\<close> when it ends, and when it does not end.\<close>

lemma broadcastWhile_sent:
  "broadcastWhile send fuel me cnt m nis st = Some (sent, a) \<Longrightarrow>
     \<not> 3 * (length sent + 1) < cnt * 2
     \<and> (\<forall>i\<in>set sent. i \<in> set (fst st) \<or>
          (\<exists>ni\<in>set nis. \<exists>k. nodeSchainIndex ni - 1 = i
              \<and> send k ni (m\<lparr> msgDstNodeID := nodeID ni \<rparr>)))"
proof (induction fuel arbitrary: st)
  case 0
  then show ?case by (auto split: if_splits)
next
  case (Suc fuel)
  show ?case
  proof (cases "3 * (length (fst st) + 1) < cnt * 2")
    case True
    then have "broadcastWhile send fuel me cnt m nis (sendPass send me m nis st) = Some (sent, a)"
      using Suc.prems by simp
    from Suc.IH [OF this] show ?thesis
      using sendPass_sent [of _ send me m nis st] by blast
  next
    case False
    then show ?thesis using Suc.prems by auto
  qed
qed

lemma broadcastWhile_mono:
  "broadcastWhile send fuel me cnt m nis st = Some (sent, a) \<Longrightarrow> set (fst st) \<subseteq> set sent"
proof (induction fuel arbitrary: st)
  case 0
  then show ?case by (auto split: if_splits)
next
  case (Suc fuel)
  show ?case
  proof (cases "3 * (length (fst st) + 1) < cnt * 2")
    case True
    then have "broadcastWhile send fuel me cnt m nis (sendPass send me m nis st) = Some (sent, a)"
      using Suc.prems by simp
    from Suc.IH [OF this] sendPass_mono [of st send me m nis] show ?thesis by blast
  next
    case False
    then show ?thesis using Suc.prems by auto
  qed
qed

lemma broadcastWhile_unsent:
  assumes "broadcastWhile send fuel me cnt m nis st = Some (sent, a)"
    and "3 * (length (fst st) + 1) < cnt * 2"
    and "ni \<in> set nis" and "nodeSchainIndex ni - 1 \<noteq> me - 1"
    and "nodeSchainIndex ni - 1 \<notin> set sent"
  shows "\<exists>k. \<not> send k ni (m\<lparr> msgDstNodeID := nodeID ni \<rparr>)"
proof (cases fuel)
  case 0
  then show ?thesis using assms(1,2) by simp
next
  case (Suc f)
  then have r: "broadcastWhile send f me cnt m nis (sendPass send me m nis st) = Some (sent, a)"
    using assms(1,2) by simp
  have "nodeSchainIndex ni - 1 \<notin> set (fst (sendPass send me m nis st))"
    using broadcastWhile_mono [OF r] assms(5) by blast
  from sendPass_unsent [OF assms(3,4) this] show ?thesis .
qed

lemma broadcastWhile_never:
  assumes "\<And>k ni m'. \<not> send k ni m'" and "3 * (length (fst st) + 1) < cnt * 2"
  shows "broadcastWhile send fuel me cnt m nis st = None"
  using assms(2)
proof (induction fuel arbitrary: st)
  case 0
  then show ?case by simp
next
  case (Suc fuel)
  have "fst (sendPass send me m nis st) = fst st" using assms(1) by (rule sendPass_all_fail)
  then show ?case using Suc by simp
qed

text \<open>The second loop: the deques it changes, and how.\<close>

lemma queueUnsent_bounded:
  "list_all (\<lambda>q. length q \<le> 256) ds \<Longrightarrow> queueUnsent m me sent nis ds = Some ds' \<Longrightarrow>
     list_all (\<lambda>q. length q \<le> 256) ds' \<and> length ds' = length ds"
proof (induction nis arbitrary: ds)
  case Nil
  then show ?case by simp
next
  case (Cons ni nis)
  let ?i = "unat (nodeSchainIndex ni - 1)"
  let ?ds = "ds[?i := delayedPush (m, ni) (ds ! ?i)]"
  show ?case
  proof (cases "nodeSchainIndex ni - 1 \<noteq> me - 1 \<and> nodeSchainIndex ni - 1 \<notin> set sent")
    case True
    with Cons.prems(2) have r: "?i < length ds" "queueUnsent m me sent nis ?ds = Some ds'"
      by (auto simp add: Let_def split: if_splits)
    have "length (ds ! ?i) \<le> 256" using Cons.prems(1) r(1) by (simp add: list_all_length)
    then have "list_all (\<lambda>q. length q \<le> 256) ?ds"
      using Cons.prems(1) by (simp add: list_all_update delayedPush_bound)
    from Cons.IH [OF this r(2)] show ?thesis by simp
  next
    case False
    with Cons.prems(2) have "queueUnsent m me sent nis ds = Some ds'"
      by (auto simp add: Let_def)
    from Cons.IH [OF Cons.prems(1) this] show ?thesis .
  qed
qed

lemma queueUnsent_other:
  "queueUnsent m me sent nis ds = Some ds' \<Longrightarrow>
   j \<notin> (\<lambda>ni. unat (nodeSchainIndex ni - 1)) ` set nis \<Longrightarrow> ds' ! j = ds ! j"
proof (induction nis arbitrary: ds)
  case Nil
  then show ?case by simp
next
  case (Cons ni nis)
  let ?i = "unat (nodeSchainIndex ni - 1)"
  let ?ds = "ds[?i := delayedPush (m, ni) (ds ! ?i)]"
  have j: "j \<noteq> ?i" "j \<notin> (\<lambda>ni. unat (nodeSchainIndex ni - 1)) ` set nis"
    using Cons.prems(2) by auto
  show ?case
  proof (cases "nodeSchainIndex ni - 1 \<noteq> me - 1 \<and> nodeSchainIndex ni - 1 \<notin> set sent")
    case True
    with Cons.prems(1) have "queueUnsent m me sent nis ?ds = Some ds'"
      by (auto simp add: Let_def split: if_splits)
    from Cons.IH [OF this j(2)] j(1) show ?thesis by simp
  next
    case False
    with Cons.prems(1) have "queueUnsent m me sent nis ds = Some ds'"
      by (auto simp add: Let_def)
    from Cons.IH [OF this j(2)] show ?thesis .
  qed
qed

lemma unat_pred_inj: "unat (a - 1 :: u64) = unat (b - 1) \<Longrightarrow> a = b"
proof -
  assume "unat (a - 1) = unat (b - 1)"
  then have "a - 1 = b - 1" by (simp only: word_unat_eq_iff [symmetric])
  then show "a = b" by simp
qed

lemma queueUnsent_nth:
  assumes "distinct (map nodeSchainIndex nis)" and "queueUnsent m me sent nis ds = Some ds'"
    and "ni \<in> set nis"
  shows "ds' ! unat (nodeSchainIndex ni - 1) =
           (if nodeSchainIndex ni - 1 \<noteq> me - 1 \<and> nodeSchainIndex ni - 1 \<notin> set sent
            then delayedPush (m, ni) (ds ! unat (nodeSchainIndex ni - 1))
            else ds ! unat (nodeSchainIndex ni - 1))"
  using assms
proof (induction nis arbitrary: ds)
  case Nil
  then show ?case by simp
next
  case (Cons n0 nis)
  let ?j = "unat (nodeSchainIndex ni - 1)"
  let ?i = "unat (nodeSchainIndex n0 - 1)"
  let ?ds = "ds[?i := delayedPush (m, n0) (ds ! ?i)]"
  let ?go = "nodeSchainIndex n0 - 1 \<noteq> me - 1 \<and> nodeSchainIndex n0 - 1 \<notin> set sent"
  have d: "distinct (map nodeSchainIndex nis)" using Cons.prems(1) by simp
  show ?case
  proof (cases "ni = n0")
    case True
    have "nodeSchainIndex n0 \<notin> nodeSchainIndex ` set nis" using Cons.prems(1) by simp
    then have out: "?j \<notin> (\<lambda>x. unat (nodeSchainIndex x - 1)) ` set nis"
      using True by (auto dest: unat_pred_inj)
    show ?thesis
    proof (cases ?go)
      case go: True
      with Cons.prems(2) have r: "?i < length ds" "queueUnsent m me sent nis ?ds = Some ds'"
        by (auto simp add: Let_def split: if_splits)
      from queueUnsent_other [OF r(2) out] r(1) go True show ?thesis by simp
    next
      case stay: False
      with Cons.prems(2) have "queueUnsent m me sent nis ds = Some ds'"
        by (auto simp add: Let_def)
      from queueUnsent_other [OF this out] stay True show ?thesis by auto
    qed
  next
    case False
    then have mem: "ni \<in> set nis" using Cons.prems(3) by simp
    have "nodeSchainIndex n0 \<noteq> nodeSchainIndex ni" using Cons.prems(1) mem by auto
    then have ne: "?i \<noteq> ?j" by (auto dest: unat_pred_inj)
    show ?thesis
    proof (cases ?go)
      case go: True
      with Cons.prems(2) have r: "queueUnsent m me sent nis ?ds = Some ds'"
        by (auto simp add: Let_def split: if_splits)
      have nth: "?ds ! ?j = ds ! ?j" using ne by simp
      from Cons.IH [OF d r mem] show ?thesis unfolding nth .
    next
      case stay: False
      with Cons.prems(2) have "queueUnsent m me sent nis ds = Some ds'"
        by (auto simp add: Let_def)
      from Cons.IH [OF d this mem] show ?thesis .
    qed
  qed
qed

lemma broadcastMessage_bounded:
  assumes inv: "delayedSendsBounded n" and run: "broadcastMessage send fuel m n = Finished n'"
  shows "delayedSendsBounded n'"
  using inv run queueUnsent_bounded [of "delayedSends n"]
  by (auto simp add: broadcastMessage_def delayedSendsBounded_def Let_def
      split: if_splits option.splits)

lemma broadcastMessage_never:
  assumes "\<And>k ni m'. \<not> send k ni m'" and "2 \<le> nodeCount (sChain n)"
    and "catchupBlocks n < msgBlockID m"
  shows "broadcastMessage send fuel m n = StillRunning"
proof -
  have "3 * (length (fst ([] :: u64 list, sendAttempts n)) + 1) < nodeCount (sChain n) * 2"
    using assms(2) by simp
  from broadcastWhile_never [OF assms(1) this] assms(3) show ?thesis
    by (simp add: broadcastMessage_def Let_def)
qed

text \<open>
  What a broadcast that returns has done to the deques: with \<open>sent\<close> the peers reached
  when the \<open>while\<close> loop ended, each peer outside \<open>sent\<close> has the pair at the tail of
  its deque, provided fewer than all peers were reached; every other deque is as it was.
\<close>

lemma broadcastMessage_effect:
  assumes run: "broadcastMessage send fuel m n = Finished n'"
    and blk: "catchupBlocks n < msgBlockID m"
    and dist: "distinct (map nodeSchainIndex (nodeInfosByIndex n))"
  shows "\<exists>sent.
      \<not> 3 * (length sent + 1) < nodeCount (sChain n) * 2
    \<and> (\<forall>i\<in>set sent. \<exists>ni\<in>set (nodeInfosByIndex n). \<exists>k. nodeSchainIndex ni - 1 = i
          \<and> send k ni (m\<lparr> msgIp := baseIP n, msgDstNodeID := nodeID ni \<rparr>))
    \<and> (\<forall>ni\<in>set (nodeInfosByIndex n).
          delayedSends n' ! unat (nodeSchainIndex ni - 1) =
            (if nodeSchainIndex ni - 1 \<noteq> schainIndex (sChain n) - 1
                \<and> nodeSchainIndex ni - 1 \<notin> set sent
                \<and> length sent + 1 < nodeCount (sChain n)
             then delayedPush
                    (m\<lparr> msgIp := baseIP n,
                        msgDstNodeID := lastDestination (schainIndex (sChain n))
                          (msgDstNodeID m) (nodeInfosByIndex n) \<rparr>, ni)
                    (delayedSends n ! unat (nodeSchainIndex ni - 1))
             else delayedSends n ! unat (nodeSchainIndex ni - 1)))
    \<and> (\<forall>ni\<in>set (nodeInfosByIndex n).
          nodeSchainIndex ni - 1 \<noteq> schainIndex (sChain n) - 1
          \<and> nodeSchainIndex ni - 1 \<notin> set sent
          \<and> length sent + 1 < nodeCount (sChain n) \<longrightarrow>
          (\<exists>k. \<not> send k ni (m\<lparr> msgIp := baseIP n, msgDstNodeID := nodeID ni \<rparr>)))
    \<and> (\<forall>j. j \<notin> (\<lambda>ni. unat (nodeSchainIndex ni - 1)) ` set (nodeInfosByIndex n) \<longrightarrow>
          delayedSends n' ! j = delayedSends n ! j)"
proof -
  let ?me = "schainIndex (sChain n)"
  let ?nis = "nodeInfosByIndex n"
  let ?cnt = "nodeCount (sChain n)"
  let ?m1 = "m\<lparr> msgIp := baseIP n \<rparr>"
  let ?mLast = "?m1\<lparr> msgDstNodeID := lastDestination ?me (msgDstNodeID m) ?nis \<rparr>"
  have nb: "\<not> msgBlockID m \<le> catchupBlocks n" using blk by simp
  from run nb obtain sent a where
    w: "broadcastWhile send fuel ?me ?cnt ?m1 ?nis ([], sendAttempts n) = Some (sent, a)"
    by (auto simp add: broadcastMessage_def Let_def split: option.splits if_splits)
  have fin: "(if length sent + 1 < ?cnt
              then (case queueUnsent ?mLast ?me sent ?nis (delayedSends n) of
                      None \<Rightarrow> OutOfRange
                    | Some ds \<Rightarrow> Finished (n\<lparr> delayedSends := ds, sendAttempts := a \<rparr>))
              else Finished (n\<lparr> sendAttempts := a \<rparr>)) = Finished n'"
    using run nb w by (simp add: broadcastMessage_def Let_def)
  note ws = broadcastWhile_sent [OF w]
  have c1: "\<not> 3 * (length sent + 1) < ?cnt * 2" using ws by simp
  have c2: "\<forall>i\<in>set sent. \<exists>ni\<in>set ?nis. \<exists>k. nodeSchainIndex ni - 1 = i
          \<and> send k ni (m\<lparr> msgIp := baseIP n, msgDstNodeID := nodeID ni \<rparr>)"
    using ws by simp
  have c4: "\<forall>ni\<in>set ?nis.
          nodeSchainIndex ni - 1 \<noteq> ?me - 1 \<and> nodeSchainIndex ni - 1 \<notin> set sent
          \<and> length sent + 1 < ?cnt \<longrightarrow>
          (\<exists>k. \<not> send k ni (m\<lparr> msgIp := baseIP n, msgDstNodeID := nodeID ni \<rparr>))"
  proof (intro ballI impI)
    fix ni
    assume mem: "ni \<in> set ?nis"
      and h: "nodeSchainIndex ni - 1 \<noteq> ?me - 1 \<and> nodeSchainIndex ni - 1 \<notin> set sent
          \<and> length sent + 1 < ?cnt"
    then have g: "3 * (length (fst ([] :: u64 list, sendAttempts n)) + 1) < ?cnt * 2" by simp
    from broadcastWhile_unsent [OF w g mem] h
    show "\<exists>k. \<not> send k ni (m\<lparr> msgIp := baseIP n, msgDstNodeID := nodeID ni \<rparr>)" by simp
  qed
  show ?thesis
  proof (cases "length sent + 1 < ?cnt")
    case True
    with fin obtain ds where
      q: "queueUnsent ?mLast ?me sent ?nis (delayedSends n) = Some ds"
      and n': "delayedSends n' = ds"
      by (auto split: option.splits)
    have c3: "\<forall>ni\<in>set ?nis.
          delayedSends n' ! unat (nodeSchainIndex ni - 1) =
            (if nodeSchainIndex ni - 1 \<noteq> ?me - 1 \<and> nodeSchainIndex ni - 1 \<notin> set sent
                \<and> length sent + 1 < ?cnt
             then delayedPush (?mLast, ni) (delayedSends n ! unat (nodeSchainIndex ni - 1))
             else delayedSends n ! unat (nodeSchainIndex ni - 1))"
      using queueUnsent_nth [OF dist q] True n' by simp
    have c5: "\<forall>j. j \<notin> (\<lambda>ni. unat (nodeSchainIndex ni - 1)) ` set ?nis \<longrightarrow>
          delayedSends n' ! j = delayedSends n ! j"
      using queueUnsent_other [OF q] n' by simp
    from c1 c2 c3 c4 c5 show ?thesis by (intro exI [of _ sent]) simp
  next
    case False
    with fin have n': "delayedSends n' = delayedSends n"
      by auto
    from c1 c2 c4 n' False show ?thesis by (intro exI [of _ sent]) simp
  qed
qed

text \<open>The background loop: what one pass does to each deque.\<close>

lemma retryHead_frame:
  "sChain (retryHead send i n) = sChain n
   \<and> length (delayedSends (retryHead send i n)) = length (delayedSends n)"
  by (auto simp add: retryHead_def split: list.splits)

lemma retryHead_other:
  "j \<noteq> i \<Longrightarrow> delayedSends (retryHead send i n) ! j = delayedSends n ! j"
  by (auto simp add: retryHead_def split: list.splits)

lemma retryHead_at:
  "i < length (delayedSends n) \<Longrightarrow>
     delayedSends (retryHead send i n) ! i =
       (if of_nat i = schainIndex (sChain n) - 1 then delayedSends n ! i
        else case delayedSends n ! i of
               [] \<Rightarrow> []
             | x # rest \<Rightarrow> if send (sendAttempts n) (snd x) (fst x) then rest else x # rest)"
  by (auto simp add: retryHead_def split: list.splits)

lemma retryHead_bounded: "delayedSendsBounded n \<Longrightarrow> delayedSendsBounded (retryHead send i n)"
proof -
  assume inv: "delayedSendsBounded n"
  show ?thesis
  proof (cases "i < length (delayedSends n)")
    case True
    then have le: "length (delayedSends n ! i) \<le> 256"
      using inv by (simp add: delayedSendsBounded_def list_all_length)
    show ?thesis using inv le
      by (auto simp add: retryHead_def delayedSendsBounded_def list_all_update split: list.splits)
  next
    case False
    then show ?thesis using inv
      by (auto simp add: retryHead_def delayedSendsBounded_def list_update_beyond
          split: list.splits)
  qed
qed

lemma retryAll_bounded: "delayedSendsBounded n \<Longrightarrow> delayedSendsBounded (retryAll send is n)"
  by (induction "is" arbitrary: n) (simp_all add: retryHead_bounded)

lemma retryAll_frame:
  "sChain (retryAll send is n) = sChain n
   \<and> length (delayedSends (retryAll send is n)) = length (delayedSends n)"
  by (induction "is" arbitrary: n) (simp_all add: retryHead_frame)

lemma retryAll_other:
  "j \<notin> set is \<Longrightarrow> delayedSends (retryAll send is n) ! j = delayedSends n ! j"
  by (induction "is" arbitrary: n) (simp_all add: retryHead_other)

lemma retryAll_at:
  "distinct is \<Longrightarrow> i \<in> set is \<Longrightarrow> i < length (delayedSends n) \<Longrightarrow>
     \<exists>k. delayedSends (retryAll send is n) ! i =
       (if of_nat i = schainIndex (sChain n) - 1 then delayedSends n ! i
        else case delayedSends n ! i of
               [] \<Rightarrow> []
             | x # rest \<Rightarrow> if send k (snd x) (fst x) then rest else x # rest)"
proof (induction "is" arbitrary: n)
  case Nil
  then show ?case by simp
next
  case (Cons j js)
  let ?n1 = "retryHead send j n"
  show ?case
  proof (cases "i = j")
    case True
    then have "i \<notin> set js" using Cons.prems(1) by simp
    then have "delayedSends (retryAll send (j # js) n) ! i = delayedSends ?n1 ! i"
      by (simp add: retryAll_other)
    then show ?thesis using retryHead_at [OF Cons.prems(3), of send] True by auto
  next
    case False
    then have mem: "i \<in> set js" using Cons.prems(2) by simp
    have d: "distinct js" using Cons.prems(1) by simp
    have l: "i < length (delayedSends ?n1)" using Cons.prems(3) by (simp add: retryHead_frame)
    have same: "delayedSends ?n1 ! i = delayedSends n ! i" "sChain ?n1 = sChain n"
      using False by (simp_all add: retryHead_other retryHead_frame)
    from Cons.IH [OF d mem l] show ?thesis unfolding same by simp
  qed
qed

lemma postToSchain_frame:
  "postToSchain me n = (r, n') \<Longrightarrow>
     delayedSends n' = delayedSends n \<and> nodeCount (sChain n') = nodeCount (sChain n)
     \<and> schainIndex (sChain n') = schainIndex (sChain n)"
  by (auto simp add: postToSchain_def postMessage_def proc_simps split: prod.splits if_splits)

lemma postOrDefer_frame:
  "postOrDefer me b n = (r, n') \<Longrightarrow>
     delayedSends n' = delayedSends n \<and> nodeCount (sChain n') = nodeCount (sChain n)
     \<and> schainIndex (sChain n') = schainIndex (sChain n)"
  using postToSchain_frame [of me n r n']
  by (auto simp add: postOrDefer_def Let_def addToDeferredMessageQueue_def split: if_splits)

lemma postOrDeferAll_frame:
  "postOrDeferAll ms n = (r, n') \<Longrightarrow>
     delayedSends n' = delayedSends n \<and> nodeCount (sChain n') = nodeCount (sChain n)
     \<and> schainIndex (sChain n') = schainIndex (sChain n)"
proof (induction ms arbitrary: n)
  case Nil
  then show ?case by simp
next
  case (Cons m ms)
  obtain r1 n1 where p: "postOrDefer m (lastCommittedBlockID (sChain n) + 1) n = (r1, n1)"
    by (cases "postOrDefer m (lastCommittedBlockID (sChain n) + 1) n")
  note f = postOrDefer_frame [OF p]
  show ?case
  proof (cases r1)
    case (Inl e)
    then show ?thesis using Cons.prems p f by simp
  next
    case (Inr u)
    then have "postOrDeferAll ms n1 = (r, n')" using Cons.prems p by simp
    from Cons.IH [OF this] f show ?thesis by simp
  qed
qed

lemma deferredMessagesBody_bounded:
  assumes inv: "delayedSendsBounded n"
  shows "delayedSendsBounded (snd (deferredMessagesBody send n))"
proof -
  obtain ms n1 where pl: "pullMessagesForBlockID (lastCommittedBlockID (sChain n) + 1) n = (ms, n1)"
    by (cases "pullMessagesForBlockID (lastCommittedBlockID (sChain n) + 1) n")
  have i1: "delayedSendsBounded n1"
    using pl inv by (auto simp add: pullMessagesForBlockID_def delayedSendsBounded_def)
  obtain r2 n2 where pa: "postOrDeferAll ms n1 = (r2, n2)" by (cases "postOrDeferAll ms n1")
  have i2: "delayedSendsBounded n2"
    using postOrDeferAll_frame [OF pa] i1 by (simp add: delayedSendsBounded_def)
  show ?thesis
    using pl pa i2 by (cases r2) (simp_all add: deferredMessagesBody_def retryAll_bounded)
qed

lemma deferredMessagesBody_effect:
  assumes len: "length (delayedSends n) = nodeCount (sChain n)"
    and run: "deferredMessagesBody send n = (r, n')"
  shows "(r \<noteq> Inr () \<longrightarrow> delayedSends n' = delayedSends n)
    \<and> (r = Inr () \<longrightarrow>
         length (delayedSends n') = length (delayedSends n)
         \<and> (\<forall>i<nodeCount (sChain n). \<exists>k. delayedSends n' ! i =
               (if of_nat i = schainIndex (sChain n) - 1 then delayedSends n ! i
                else case delayedSends n ! i of
                       [] \<Rightarrow> []
                     | x # rest \<Rightarrow> if send k (snd x) (fst x) then rest else x # rest)))"
proof -
  obtain ms n1 where pl: "pullMessagesForBlockID (lastCommittedBlockID (sChain n) + 1) n = (ms, n1)"
    by (cases "pullMessagesForBlockID (lastCommittedBlockID (sChain n) + 1) n")
  have f1: "delayedSends n1 = delayedSends n" "sChain n1 = sChain n"
    using pl by (auto simp add: pullMessagesForBlockID_def)
  obtain r2 n2 where pa: "postOrDeferAll ms n1 = (r2, n2)" by (cases "postOrDeferAll ms n1")
  note f2 = postOrDeferAll_frame [OF pa]
  have same: "delayedSends n2 = delayedSends n" "nodeCount (sChain n2) = nodeCount (sChain n)"
    "schainIndex (sChain n2) = schainIndex (sChain n)"
    using f1 f2 by simp_all
  show ?thesis
  proof (cases r2)
    case (Inl e)
    then have "r = Inl e" "n' = n2" using run pl pa by (simp_all add: deferredMessagesBody_def)
    then show ?thesis using same by simp
  next
    case (Inr u)
    then have res: "r = Inr ()" "n' = retryAll send [0 ..< nodeCount (sChain n)] n2"
      using run pl pa same by (simp_all add: deferredMessagesBody_def)
    have "\<exists>k. delayedSends n' ! i =
               (if of_nat i = schainIndex (sChain n) - 1 then delayedSends n ! i
                else case delayedSends n ! i of
                       [] \<Rightarrow> []
                     | x # rest \<Rightarrow> if send k (snd x) (fst x) then rest else x # rest)"
      if i: "i < nodeCount (sChain n)" for i
    proof -
      have "i \<in> set [0 ..< nodeCount (sChain n)]" "i < length (delayedSends n2)"
        using i len same by simp_all
      from retryAll_at [OF distinct_upt this, of send] show ?thesis
        unfolding res same by simp
    qed
    then show ?thesis using res same by (simp add: retryAll_frame)
  qed
qed

lemma newTransportNetwork_bounded: "delayedSendsBounded (newTransportNetwork s cb nis ip)"
  by (simp add: newTransportNetwork_def delayedSendsBounded_def list_all_length)

lemma replicate_4: "replicate 4 x = [x, x, x, x]"
  by (simp add: numeral_eq_Suc)

text \<open>More fuel does not change the result of a loop that has ended.\<close>

lemma broadcastWhile_fuel:
  "broadcastWhile send fuel me cnt m nis st = Some res \<Longrightarrow>
     broadcastWhile send (fuel + k) me cnt m nis st = Some res"
proof (induction fuel arbitrary: st)
  case 0
  then show ?case by (cases k) (auto split: if_splits)
next
  case (Suc fuel)
  then show ?case by (auto split: if_splits)
qed

lemma broadcastMessage_fuel:
  "broadcastMessage send fuel m n = Finished n' \<Longrightarrow>
     broadcastMessage send (fuel + k) m n = Finished n'"
proof (cases "msgBlockID m \<le> catchupBlocks n")
  case True
  assume "broadcastMessage send fuel m n = Finished n'"
  with True show ?thesis by (simp add: broadcastMessage_def)
next
  case False
  let ?w = "\<lambda>f. broadcastWhile send f (schainIndex (sChain n)) (nodeCount (sChain n))
      (m\<lparr> msgIp := baseIP n \<rparr>) (nodeInfosByIndex n) ([], sendAttempts n)"
  assume run: "broadcastMessage send fuel m n = Finished n'"
  then obtain res where w: "?w fuel = Some res"
    using False by (auto simp add: broadcastMessage_def Let_def split: option.splits)
  have "?w (fuel + k) = Some res" using w by (rule broadcastWhile_fuel)
  then show ?thesis using run w False by (simp add: broadcastMessage_def Let_def)
qed

text \<open>A broadcast returns once a pass has reached two thirds of the nodes.\<close>

lemma queueUnsent_total:
  "\<forall>ni\<in>set nis. unat (nodeSchainIndex ni - 1) < length ds \<Longrightarrow>
     \<exists>ds'. queueUnsent m me sent nis ds = Some ds'"
proof (induction nis arbitrary: ds)
  case Nil
  then show ?case by simp
next
  case (Cons ni nis)
  let ?i = "unat (nodeSchainIndex ni - 1)"
  let ?ds = "ds[?i := delayedPush (m, ni) (ds ! ?i)]"
  have a: "\<forall>ni\<in>set nis. unat (nodeSchainIndex ni - 1) < length ds" using Cons.prems by simp
  then have b: "\<forall>ni\<in>set nis. unat (nodeSchainIndex ni - 1) < length ?ds" by simp
  have c: "?i < length ds" using Cons.prems by simp
  show ?case using Cons.IH [OF a] Cons.IH [OF b] c by (simp add: Let_def)
qed

lemma broadcastWhile_one_pass:
  assumes "\<not> 3 * (length (fst (sendPass send me m nis st)) + 1) < cnt * 2"
  shows "\<exists>res. broadcastWhile send (Suc fuel) me cnt m nis st = Some res"
  using assms by (cases fuel) auto

lemma broadcastMessage_returns:
  assumes inrange: "\<forall>ni\<in>set (nodeInfosByIndex n).
      unat (nodeSchainIndex ni - 1) < length (delayedSends n)"
    and pass: "\<not> 3 * (length (fst (sendPass send (schainIndex (sChain n))
        (m\<lparr> msgIp := baseIP n \<rparr>) (nodeInfosByIndex n) ([], sendAttempts n))) + 1)
          < nodeCount (sChain n) * 2"
  shows "\<exists>n'. broadcastMessage send (Suc fuel) m n = Finished n'"
proof -
  obtain sent a where w: "broadcastWhile send (Suc fuel) (schainIndex (sChain n))
      (nodeCount (sChain n)) (m\<lparr> msgIp := baseIP n \<rparr>) (nodeInfosByIndex n)
      ([], sendAttempts n) = Some (sent, a)"
    using broadcastWhile_one_pass [OF pass, of fuel] by auto
  obtain ds where q: "queueUnsent
      (m\<lparr> msgIp := baseIP n, msgDstNodeID := lastDestination (schainIndex (sChain n))
          (msgDstNodeID m) (nodeInfosByIndex n) \<rparr>)
      (schainIndex (sChain n)) sent (nodeInfosByIndex n) (delayedSends n) = Some ds"
    using queueUnsent_total [OF inrange] by blast
  show ?thesis
    using w q by (simp add: broadcastMessage_def Let_def del: broadcastWhile.simps)
qed

text \<open>
  C9, as stated: "a failed broadcast send appends the pair at the tail". Seen from node 1
  of four, the first send to node 2 fails and node 4 cannot be reached. The first pass
  reaches node 3 only, which is less than two thirds of the nodes, so the \<open>while\<close> loop
  goes round again and reaches node 2. When the broadcast returns the deque of node 2 is
  empty: its failed send appended nothing. And with no node reachable every send fails and
  nothing is appended: after three passes the loop is still running.
\<close>

lemma broadcastWhile_numeral:
  "broadcastWhile send (numeral k) me cnt m nis st =
     (if 3 * (length (fst st) + 1) < cnt * 2
      then broadcastWhile send (pred_numeral k) me cnt m nis (sendPass send me m nis st)
      else Some st)"
  by (simp add: numeral_eq_Suc)



lemma upt_0_4: "[0 ..< 4] = [0, 1, 2, 3]"
  by (simp add: upt_conv_Cons)


subsection \<open>Committed block serialization\<close>

text \<open>The getters fail exactly on the fields that are not well typed.\<close>

lemma getUint64_iff: "(getUint64 js name = None) = (\<not> isNum (jsonField js name))"
  by (simp add: getUint64_def isNum_def split: jval.splits)

lemma getUint32_iff: "(getUint32 js name = None) = (\<not> isNum (jsonField js name))"
  by (simp add: getUint32_def isNum_def split: jval.splits)

lemma getString_iff: "(getString js name = None) = (\<not> isStr (jsonField js name))"
  by (simp add: getString_def isStr_def split: jval.splits)

lemma getString_hashField: "getString js ''hash'' = Some h \<Longrightarrow> hashField js = h"
  by (simp add: getString_def hashField_def split: jval.splits)

lemma getSizes_iff: "(getSizes js = None) = (\<not> isSizes (jsonField js ''sizes''))"
  by (simp add: getSizes_def isSizes_def split: jval.splits)

lemma getSizes_sizesField: "getSizes js = Some ns \<Longrightarrow> sizesField js = ns"
  by (simp add: getSizes_def sizesField_def split: jval.splits)

lemma fieldsWellTyped_getters:
  "fieldsWellTyped js =
     (getUint64 js ''proposerIndex'' \<noteq> None \<and> getUint64 js ''proposerNodeID'' \<noteq> None \<and>
      getUint64 js ''blockID'' \<noteq> None \<and> getUint64 js ''schainID'' \<noteq> None \<and>
      getUint64 js ''timeStamp'' \<noteq> None \<and> getUint32 js ''timeStampMs'' \<noteq> None \<and>
      getString js ''hash'' \<noteq> None \<and> getSizes js \<noteq> None)"
  unfolding fieldsWellTyped_def getUint64_iff getUint32_iff getString_iff getSizes_iff
  by simp

text \<open>When \<open>parseBlockHeader\<close> throws, and the sizes it returns when it does not.\<close>

lemma parseBlockHeader_None_iff:
  "(parseBlockHeader P header = None) =
     (length header \<le> 2 \<or> hd header \<noteq> CHR ''{'' \<or> last header \<noteq> CHR ''}'' \<or>
      (case jsonParse P header of
         None \<Rightarrow> True
       | Some js \<Rightarrow> \<not> fieldsWellTyped js \<or> \<not> fromHex P (hashField js)))"
  unfolding parseBlockHeader_def fieldsWellTyped_getters
  by (auto split: option.splits dest: getString_hashField)

lemma parseBlockHeader_sizes:
  "parseBlockHeader P header = Some (parsed, sizes) \<Longrightarrow>
     \<exists>js. jsonParse P header = Some js \<and> sizesField js = sizes"
  unfolding parseBlockHeader_def
  by (auto split: if_splits option.splits dest: getSizes_sizesField)

text \<open>
  The checks on the header size, made in 64-bit arithmetic, are the checks on the numbers
  as long as \<open>MAX_BUFFER_SIZE + 8\<close> and the length of the input stay below \<open>2^64\<close>.
\<close>

lemma headerSize_checks:
  fixes hs :: u64
  assumes "unat m + 8 < 2 ^ 64" and "n < 2 ^ 64"
  shows "(n < 8 + 2 \<or> hs < 2 \<or> hs + 8 > of_nat n \<or> hs > m) =
         (hs < 2 \<or> n < unat hs + 8 \<or> m < hs)"
proof (cases "m < hs")
  case True
  then show ?thesis by simp
next
  case False
  then have le: "unat hs \<le> unat m" by (simp add: word_less_nat_alt)
  with assms have "unat hs + unat (8 :: u64) < 2 ^ LENGTH(64)" by simp
  then have s: "unat (hs + 8) = unat hs + 8"
    using unat_add_lem [of hs 8] by simp
  have n: "unat (of_nat n :: u64) = n"
    using assms(2) by (simp add: unsigned_of_nat take_bit_nat_eq_self)
  have two: "(hs < 2) = (unat hs < 2)" by (simp add: word_less_nat_alt)
  have gt: "(hs + 8 > of_nat n) = (n < unat hs + 8)"
    by (simp add: word_less_nat_alt s n)
  show ?thesis using False unfolding two gt by auto
qed

text \<open>The declared sizes fit the bytes exactly when they add up to no more than there are.\<close>

lemma cutTransactions_None_iff:
  "(cutTransactions sizes bytes = None) = (length bytes < sum_list sizes)"
  by (induction sizes arbitrary: bytes) auto

lemma TransactionList_deserialize_rejects:
  "isl (TransactionList_deserialize sizes bytes offset)
     = (length bytes - offset < sum_list sizes)"
  using cutTransactions_None_iff [of sizes "drop offset bytes"]
  by (auto simp add: TransactionList_deserialize_def split: option.splits)

text \<open>
  The constructor throws before the transaction list exactly on \<open>headerRejected\<close>; past
  that, its result is the result of \<open>TransactionList::deserialize\<close> on the declared
  sizes.
\<close>

lemma deserialize_header_stage:
  assumes "unat (MAX_BUFFER_SIZE P) + 8 < 2 ^ 64" and "length bytes < 2 ^ 64"
  shows "headerRejected P bytes \<Longrightarrow> isl (CommittedBlock_deserialize P bytes)"
    and "\<not> headerRejected P bytes \<Longrightarrow>
           isl (CommittedBlock_deserialize P bytes) =
           isl (TransactionList_deserialize (declaredSizes P bytes) bytes
                  (unat (readHeaderSize bytes)))"
proof -
  let ?hs = "readHeaderSize bytes"
  let ?header = "take (unat ?hs) (drop 8 bytes)"
  let ?early = "?hs < 2 \<or> length bytes < unat ?hs + 8 \<or> MAX_BUFFER_SIZE P < ?hs"
  note chk = headerSize_checks [OF assms, of ?hs]
  have early: "?early \<Longrightarrow> CommittedBlock_deserialize P bytes = Inl InvalidArgumentException"
    using chk by (auto simp add: CommittedBlock_deserialize_def Let_def)
  have late: "\<not> ?early \<Longrightarrow> parseBlockHeader P ?header = None \<Longrightarrow>
      CommittedBlock_deserialize P bytes = Inl ParsingException"
    using chk by (simp add: CommittedBlock_deserialize_def Let_def)
  have rej: "headerRejected P bytes = (?early \<or> parseBlockHeader P ?header = None)"
    unfolding parseBlockHeader_None_iff headerRejected_def Let_def by blast
  show "headerRejected P bytes \<Longrightarrow> isl (CommittedBlock_deserialize P bytes)"
    using early late rej by (cases ?early) auto
  assume ok: "\<not> headerRejected P bytes"
  then have ne: "\<not> ?early" and "parseBlockHeader P ?header \<noteq> None"
    using rej by auto
  then obtain parsed sizes where ps: "parseBlockHeader P ?header = Some (parsed, sizes)"
    by (cases "parseBlockHeader P ?header") auto
  then obtain js where js: "jsonParse P ?header = Some js" "sizesField js = sizes"
    using parseBlockHeader_sizes by blast
  then have ds: "declaredSizes P bytes = sizes" by (simp add: declaredSizes_def)
  from ne chk have c: "\<not> (length bytes < 8 + 2 \<or> ?hs < 2 \<or> ?hs + 8 > of_nat (length bytes) \<or>
       ?hs > MAX_BUFFER_SIZE P)" by simp
  show "isl (CommittedBlock_deserialize P bytes) =
        isl (TransactionList_deserialize (declaredSizes P bytes) bytes (unat ?hs))"
    using c ps unfolding ds
    by (simp add: CommittedBlock_deserialize_def Let_def split: sum.splits)
qed

subsection \<open>The sample blocks, serialized and read back\<close>

lemmas json_defs = dumpObject_def parseObject_def parseVal_def parseStr_def parseNat_def
  isDigit_def digitVal_def

lemmas field_defs = getUint64_def getUint32_def getString_def getSizes_def jsonField_def

lemmas sample_defs = headerS6_def headerS6c_def headerLong_def blockS6c_def blockLong_def
  headerJson_def blockS6_def

lemma char_of_samples:
  "char_of (193 :: nat) = CHR 0xC1" "char_of (0 :: nat) = CHR 0x00"
  "char_of (51 :: nat) = CHR ''3''"
  by code_simp+

lemma toLE64_193: "toLE64 193 = prefixS6"
  by (simp add: toLE64_def upt_conv_Cons char_of_samples prefixS6_def)

lemma header_length:
  "length headerS6 = 193" "length headerS6c = 193" "length headerLong = 194"
  by (simp_all add: sample_defs json_defs)

lemma header_ends:
  "headerS6 ! 0 = CHR ''{''" "last headerS6 = CHR ''}''" "hd headerS6 = CHR ''{''"
  "last headerS6c = CHR ''}''" "hd headerS6c = CHR ''{''"
  "last headerLong = CHR ''}''" "hd headerLong = CHR ''{''"
  by (simp_all add: sample_defs json_defs)

lemma header_tail:
  "drop 185 headerS6 = [CHR 0x22] @ '':[5,5]}''"
  "drop 185 headerS6c = [CHR 0x22] @ '':[5,5]}''"
  by (simp_all add: sample_defs json_defs)

lemma header_parse:
  "parseObject headerS6 = Some (headerJson blockS6)"
  "parseObject headerS6c = Some (headerJson blockS6c)"
  "parseObject headerLong = Some (headerJson blockLong)"
  by (simp_all add: sample_defs json_defs)

lemma parseBlockHeader_samples:
  "parseBlockHeader serEnv0 headerS6 = Some (blockS6\<lparr> transactionList := [] \<rparr>, [5, 5])"
  "parseBlockHeader serEnv0 headerS6c = Some (blockS6c\<lparr> transactionList := [] \<rparr>, [5, 5])"
  "parseBlockHeader serEnv0 headerLong = Some (blockLong\<lparr> transactionList := [] \<rparr>, [1000])"
  using header_ends header_length
  by (simp_all add: parseBlockHeader_def serEnv0_def header_parse)
     (simp_all add: headerJson_def blockS6_def blockS6c_def blockLong_def field_defs)

lemma serialize_S6: "CommittedBlock_serialize serEnv0 blockS6 = Inr bytesS6"
proof -
  have tb: "toBuffer serEnv0 blockS6 = prefixS6 @ headerS6"
    by (simp add: toBuffer_def serEnv0_def headerS6_def [symmetric] header_length toLE64_193)
  have l8: "length prefixS6 = 8" by (simp add: prefixS6_def)
  have tx: "concat (transactionList blockS6) = replicate 5 (CHR 0xAA) @ replicate 5 (CHR 0xBB)"
    by (simp add: blockS6_def)
  have ne: "headerS6 \<noteq> []" using header_length(1) by auto
  show ?thesis
    unfolding CommittedBlock_serialize_def tb Let_def
    using l8 header_ends header_length ne
    by (simp add: nth_append bytesS6_def tx)
qed

lemma bytes_length: "length bytesS6 = 211" "length bytesS6c = 211" "length bytesCut = 202"
  by (simp_all add: bytesS6_def bytesS6c_def bytesCut_def prefixS6_def header_length)

lemma bytes_headerSize:
  "readHeaderSize bytesS6 = 193" "readHeaderSize bytesS6c = 193" "readHeaderSize bytesCut = 194"
  by (simp_all add: readHeaderSize_def bytesS6_def bytesS6c_def bytesCut_def prefixS6_def)

lemma bytes_header:
  "take 193 (drop 8 bytesS6) = headerS6" "take 193 (drop 8 bytesS6c) = headerS6c"
  "take 194 (drop 8 bytesCut) = headerLong"
  by (simp_all add: bytesS6_def bytesS6c_def bytesCut_def prefixS6_def header_length)

text \<open>
  What stands at offset \<open>headerSize\<close>: the last eight bytes of the header, then the
  payloads.
\<close>

lemma bytes_from_offset:
  "drop 193 bytesS6 = [CHR 0x22] @ '':[5,5]}'' @ replicate 5 (CHR 0xAA) @ replicate 5 (CHR 0xBB)"
  "drop 193 bytesS6c = [CHR 0x22] @ '':[5,5]}'' @ replicate 5 (CHR 0xAA) @ replicate 5 (CHR 0xBB)"
proof -
  have "drop 193 bytesS6 = drop 185 (headerS6 @ replicate 5 (CHR 0xAA) @ replicate 5 (CHR 0xBB))"
    by (simp add: bytesS6_def prefixS6_def)
  also have "\<dots> = drop 185 headerS6 @ replicate 5 (CHR 0xAA) @ replicate 5 (CHR 0xBB)"
    by (simp add: header_length)
  finally show "drop 193 bytesS6 =
      [CHR 0x22] @ '':[5,5]}'' @ replicate 5 (CHR 0xAA) @ replicate 5 (CHR 0xBB)"
    by (simp add: header_tail)
  have "drop 193 bytesS6c = drop 185 (headerS6c @ replicate 5 (CHR 0xAA) @ replicate 5 (CHR 0xBB))"
    by (simp add: bytesS6c_def prefixS6_def)
  also have "\<dots> = drop 185 headerS6c @ replicate 5 (CHR 0xAA) @ replicate 5 (CHR 0xBB)"
    by (simp add: header_length)
  finally show "drop 193 bytesS6c =
      [CHR 0x22] @ '':[5,5]}'' @ replicate 5 (CHR 0xAA) @ replicate 5 (CHR 0xBB)"
    by (simp add: header_tail)
qed

lemma replicate_2: "replicate 2 x = [x, x]"
  by (simp add: numeral_2_eq_2)

lemma deserialize_S6:
  "CommittedBlock_deserialize serEnv0 bytesS6 =
     Inr (blockS6\<lparr> transactionList := [[CHR 0x22] @ '':[5,'', ''5]}'' @ [CHR 0xAA, CHR 0xAA]] \<rparr>)"
  by (simp add: CommittedBlock_deserialize_def Let_def bytes_length bytes_headerSize
      bytes_header parseBlockHeader_samples TransactionList_deserialize_def bytes_from_offset)
     (simp add: serEnv0_def blockS6_def replicate_2)

lemma deserialize_S6c:
  "CommittedBlock_deserialize serEnv0 bytesS6c =
     Inr (blockS6c\<lparr> transactionList := [[CHR 0x22] @ '':[5,'', ''5]}'' @ [CHR 0xAA, CHR 0xAA]] \<rparr>)"
  by (simp add: CommittedBlock_deserialize_def Let_def bytes_length bytes_headerSize
      bytes_header parseBlockHeader_samples TransactionList_deserialize_def bytes_from_offset)
     (simp add: serEnv0_def blockS6_def blockS6c_def replicate_2)

lemma deserialize_Cut:
  "CommittedBlock_deserialize serEnv0 bytesCut = Inl ParsingException"
  by (simp add: CommittedBlock_deserialize_def Let_def bytes_length bytes_headerSize
      bytes_header parseBlockHeader_samples TransactionList_deserialize_def)
     (simp add: serEnv0_def)

lemma rejectsBySpec_Cut: "\<not> rejectsBySpec serEnv0 bytesCut"
  using header_ends
  by (simp add: rejectsBySpec_def Let_def bytes_length bytes_headerSize bytes_header)
     (simp add: serEnv0_def header_parse fieldMissing_def requiredFields_def jsonField_def
        headerJson_def blockLong_def blockS6_def)

text \<open>The two serializations differ in the byte at position 109, and only there.\<close>

lemma header_split:
  "headerS6 = take 101 headerS6 @ CHR ''2'' # drop 102 headerS6"
  "headerS6c = take 101 headerS6 @ CHR ''3'' # drop 102 headerS6"
  by (simp_all add: sample_defs json_defs)

lemma bytes_split:
  "length (prefixS6 @ take 101 headerS6) = 109"
  "bytesS6 = (prefixS6 @ take 101 headerS6) @ CHR ''2'' #
     (drop 102 headerS6 @ replicate 5 (CHR 0xAA) @ replicate 5 (CHR 0xBB))"
  "bytesS6c = (prefixS6 @ take 101 headerS6) @ CHR ''3'' #
     (drop 102 headerS6 @ replicate 5 (CHR 0xAA) @ replicate 5 (CHR 0xBB))"
proof -
  show "length (prefixS6 @ take 101 headerS6) = 109"
    by (simp add: prefixS6_def header_length)
  show "bytesS6 = (prefixS6 @ take 101 headerS6) @ CHR ''2'' #
     (drop 102 headerS6 @ replicate 5 (CHR 0xAA) @ replicate 5 (CHR 0xBB))"
    unfolding bytesS6_def by (subst header_split(1)) simp
  show "bytesS6c = (prefixS6 @ take 101 headerS6) @ CHR ''3'' #
     (drop 102 headerS6 @ replicate 5 (CHR 0xAA) @ replicate 5 (CHR 0xBB))"
    unfolding bytesS6c_def by (subst header_split(2)) simp
qed

lemma corrupt_S6: "corrupt_byte_vector bytesS6 109 = bytesS6c"
proof -
  let ?A = "prefixS6 @ take 101 headerS6"
  let ?B = "drop 102 headerS6 @ replicate 5 (CHR 0xAA) @ replicate 5 (CHR 0xBB)"
  note l = bytes_split(1) and b = bytes_split(2) and c = bytes_split(3)
  have n: "bytesS6 ! 109 = CHR ''2''"
    by (subst b, subst l [symmetric], rule nth_append_length)
  have u: "(?A @ CHR ''2'' # ?B)[109 := CHR ''3''] = ?A @ CHR ''3'' # ?B"
    by (subst l [symmetric], rule list_update_length)
  show ?thesis
    unfolding corrupt_byte_vector_def n
    by (simp add: char_of_samples) (subst b, subst c, rule u)
qed

lemma bytesS6c_differs: "bytesS6c \<noteq> bytesS6"
  by (subst bytes_split(2), subst bytes_split(3)) simp

text \<open>
  C3, at the block of scenario S6. Serialization gives the 8-byte length 193, the header
  and the ten payload bytes. Read back, the block has two transactions of five bytes
  each, but they are not the ones that were serialized: the constructor hands
  \<open>headerSize\<close> to \<open>TransactionList::deserialize\<close> as the offset of the payloads, which
  start at \<open>headerSize + 8\<close>, so the list is cut out of the last eight bytes of the header
  and the first two payload bytes.
\<close>

theorem roundtrip_S6_transactions:
  "CommittedBlock_serialize serEnv0 blockS6 = Inr bytesS6
   \<and> map_sum id transactionList (CommittedBlock_deserialize serEnv0 bytesS6)
       = Inr [[CHR 0x22] @ '':[5,'', ''5]}'' @ [CHR 0xAA, CHR 0xAA]]
   \<and> transactionList blockS6 = [replicate 5 (CHR 0xAA), replicate 5 (CHR 0xBB)]"
  by (simp add: serialize_S6 deserialize_S6) (simp add: blockS6_def)

text \<open>
  C4, as stated: "deserialization rejects an input exactly when the header size is below
  2, the header size plus 8 exceeds the length, the header size exceeds
  \<open>MAX_BUFFER_SIZE\<close>, a brace is missing or a required field is missing". The
  serialization of a block with one transaction of 1000 bytes, cut after its header, meets
  none of these conditions and is rejected: the header declares 1000 bytes and the whole
  input has 202.
\<close>

theorem deserialize_truncated_counterexample:
  "isl (CommittedBlock_deserialize serEnv0 bytesCut)
   \<and> \<not> rejectsBySpec serEnv0 bytesCut"
  by (simp add: deserialize_Cut rejectsBySpec_Cut)

text \<open>
  C4, amended. With \<open>MAX_BUFFER_SIZE + 8\<close> and the length of the input below \<open>2^64\<close>,
  deserialization rejects an input when: the header size is below 2; the header size plus
  8 exceeds the length of the input; the header size exceeds \<open>MAX_BUFFER_SIZE\<close>; the
  header has at most 2 bytes; the header does not start with an opening brace or does not
  end with a closing brace; the header is not JSON; a required field is missing or has a
  value of the wrong type; or the hash is not accepted as hexadecimal. An input with none
  of these is rejected when the sizes its header declares add up to more than its payload
  (the bytes after the header) plus 8, and gives a block when they add up to at most the
  payload. Nothing is stated for sums in between.
\<close>

theorem deserialize_rejects_when:
  assumes "unat (MAX_BUFFER_SIZE P) + 8 < 2 ^ 64" and "length bytes < 2 ^ 64"
  shows "(headerRejected P bytes \<longrightarrow> isl (CommittedBlock_deserialize P bytes))
       \<and> (\<not> headerRejected P bytes
            \<and> payloadLength bytes + 8 < sum_list (declaredSizes P bytes)
          \<longrightarrow> isl (CommittedBlock_deserialize P bytes))
       \<and> (\<not> headerRejected P bytes
            \<and> sum_list (declaredSizes P bytes) \<le> payloadLength bytes
          \<longrightarrow> (\<exists>b. CommittedBlock_deserialize P bytes = Inr b))"
proof -
  have fit: "\<not> headerRejected P bytes \<Longrightarrow>
      length bytes - unat (readHeaderSize bytes) = payloadLength bytes + 8"
    by (auto simp add: headerRejected_def payloadLength_def Let_def)
  have blk: "\<not> isl (CommittedBlock_deserialize P bytes) \<Longrightarrow>
      \<exists>b. CommittedBlock_deserialize P bytes = Inr b"
    by (cases "CommittedBlock_deserialize P bytes") simp_all
  show ?thesis
    using deserialize_header_stage [OF assms] fit blk
    by (auto simp add: TransactionList_deserialize_rejects)
qed

theorem deserialize_rejects_when_witness:
  "unat (MAX_BUFFER_SIZE serEnv0) + 8 < 2 ^ 64 \<and> length bytesS6 < 2 ^ 64
   \<and> \<not> headerRejected serEnv0 bytesS6
   \<and> sum_list (declaredSizes serEnv0 bytesS6) = 10 \<and> payloadLength bytesS6 = 10
   \<and> (\<exists>b. CommittedBlock_deserialize serEnv0 bytesS6 = Inr b)
   \<and> length bytesCut < 2 ^ 64
   \<and> \<not> headerRejected serEnv0 bytesCut
   \<and> sum_list (declaredSizes serEnv0 bytesCut) = 1000 \<and> payloadLength bytesCut = 0
   \<and> isl (CommittedBlock_deserialize serEnv0 bytesCut)"
proof -
  have m: "unat (MAX_BUFFER_SIZE serEnv0) + 8 < 2 ^ 64" by (simp add: serEnv0_def)
  have l: "length bytesS6 < 2 ^ 64" "length bytesCut < 2 ^ 64" by (simp_all add: bytes_length)
  have ok: "\<not> headerRejected serEnv0 bytesS6" "\<not> headerRejected serEnv0 bytesCut"
    using header_ends
    by (simp_all add: headerRejected_def Let_def bytes_length bytes_headerSize bytes_header
          header_length)
       (simp_all add: serEnv0_def header_parse fieldsWellTyped_def hashField_def
          isNum_def isStr_def isSizes_def jsonField_def headerJson_def blockLong_def blockS6_def)
  have ds: "sum_list (declaredSizes serEnv0 bytesS6) = 10"
    "sum_list (declaredSizes serEnv0 bytesCut) = 1000"
    by (simp_all add: declaredSizes_def bytes_headerSize bytes_header)
       (simp_all add: serEnv0_def header_parse sizesField_def jsonField_def headerJson_def
          blockLong_def blockS6_def)
  have pl: "payloadLength bytesS6 = 10" "payloadLength bytesCut = 0"
    by (simp_all add: payloadLength_def bytes_length bytes_headerSize)
  show ?thesis
    using deserialize_rejects_when [OF m l(1)] deserialize_rejects_when [OF m l(2)] m l ok ds pl
    by simp
qed

text \<open>
  C5, at the block of scenario S6. The byte at position 109 of the serialized block is the
  digit 2 of the milliseconds; \<open>corrupt_byte_vector\<close> makes it a 3. The corrupted bytes
  are deserialized without an error, into a block with 350 ms: the hash of the header is
  read and then overwritten by \<open>calculateHash\<close>, and never compared.
\<close>

theorem corrupted_S6_accepted:
  "CommittedBlock_serialize serEnv0 blockS6 = Inr bytesS6
   \<and> corrupt_byte_vector bytesS6 109 \<noteq> bytesS6
   \<and> map_sum id timeStampMs (CommittedBlock_deserialize serEnv0 (corrupt_byte_vector bytesS6 109))
       = Inr 350
   \<and> timeStampMs blockS6 = 250"
  by (simp add: serialize_S6 corrupt_S6 bytesS6c_differs deserialize_S6c)
     (simp add: blockS6c_def blockS6_def)

end
